theory Spec2Isabelle
  imports
    Main
    "HOL-Library.Word"
    "HOL-Library.Char_ord"
    "HOL-Library.List_Lexorder"
    "HOL-Library.Multiset"
    "HOL-Library.AList"
begin

section \<open>Bytes, errors and key material\<close>

text \<open>
  A \<^verbatim>\<open>Uint8Array\<close> is a list of 8-bit words. Every \<^verbatim>\<open>throw\<close> of the library is a
  value of \<open>error\<close>, named after the taxonomy of the specification:
  \<^item> \<open>EncodingError path\<close>: \<^verbatim>\<open>undefined encountered at <path>\<close> (cbor.ts);
  \<^item> \<open>DecodingError\<close>: the CBOR decoder rejects its input;
  \<^item> \<open>InvalidKeyLength Secret\<close>: \<^verbatim>\<open>Invalid ed25519 secret length. Expected 32 or 64 bytes\<close>;
  \<^item> \<open>InvalidKeyLength PublicKey\<close>: \<^verbatim>\<open>Invalid ed25519 public key length. Expected 32 bytes\<close>;
  \<^item> \<open>InvalidSignatureLength\<close>: \<^verbatim>\<open>Invalid ed25519 signature length. Expected 64 bytes\<close>;
  \<^item> \<open>InvalidHexInput\<close>: the three failures of \<^verbatim>\<open>hexToBytes\<close> (empty, odd length,
    non-hex characters).
\<close>

type_synonym byte = "8 word"
type_synonym bytes = "byte list"

datatype key_kind = Secret | PublicKey

datatype error =
    EncodingError "string list"
  | DecodingError
  | InvalidKeyLength key_kind
  | InvalidSignatureLength
  | InvalidHexInput

subsection \<open>utils/bytes.ts\<close>

definition is_hex_digit :: "char \<Rightarrow> bool" where
  "is_hex_digit c \<longleftrightarrow> c \<in> set ''0123456789abcdefABCDEF''"

text \<open>The value \<^verbatim>\<open>parseInt\<close> gives one hexadecimal digit (upper or lower case).\<close>

definition hex_digit_value :: "char \<Rightarrow> nat" where
  "hex_digit_value c =
     (let n = (of_char c :: nat) in
      if 48 \<le> n \<and> n \<le> 57 then n - 48
      else if 97 \<le> n \<and> n \<le> 102 then n - 87
      else if 65 \<le> n \<and> n \<le> 70 then n - 55
      else 0)"

text \<open>The loop \<^verbatim>\<open>out[i] = parseInt(clean.slice(i * 2, i * 2 + 2), 16)\<close>.\<close>

fun parse_hex_pairs :: "string \<Rightarrow> bytes" where
  "parse_hex_pairs (a # b # rest) =
     of_nat (hex_digit_value a * 16 + hex_digit_value b) # parse_hex_pairs rest"
| "parse_hex_pairs _ = []"

definition hexToBytes :: "string \<Rightarrow> error + bytes" where
  "hexToBytes hex =
     (let clean = (if take 2 hex = ''0x'' \<or> take 2 hex = ''0X'' then drop 2 hex else hex) in
      if length clean = 0 then Inl InvalidHexInput
      else if length clean mod 2 \<noteq> 0 then Inl InvalidHexInput
      else if \<not> list_all is_hex_digit clean then Inl InvalidHexInput
      else Inr (parse_hex_pairs clean))"

definition hex_char :: "nat \<Rightarrow> char" where
  "hex_char n = ''0123456789abcdef'' ! (n mod 16)"

text \<open>\<^verbatim>\<open>b.toString(16).padStart(2, "0")\<close> for a byte, joined over the array (lowercase,
  no prefix: the default options of \<^verbatim>\<open>bytesToHex\<close>).\<close>

definition byte_hex :: "byte \<Rightarrow> string" where
  "byte_hex b = [hex_char (unat b div 16), hex_char (unat b mod 16)]"

definition bytesToHex :: "bytes \<Rightarrow> string" where
  "bytesToHex bs = concat (map byte_hex bs)"

subsection \<open>ed25519.ts\<close>

text \<open>
  Secrets, signatures and public keys are \<^verbatim>\<open>Uint8Array | string\<close>. The primitives of
  \<^verbatim>\<open>@noble/curves\<close> (\<^verbatim>\<open>ed25519.sign\<close>, \<^verbatim>\<open>ed25519.verify\<close>,
  \<^verbatim>\<open>ed25519.getPublicKey\<close>) are not part of the library: they are parameters of the
  functions that call them, in the argument order of the calls.
\<close>

datatype bytes_or_hex = Bytes bytes | Hex string

fun toBytes :: "bytes_or_hex \<Rightarrow> error + bytes" where
  "toBytes (Hex s) = hexToBytes s"
| "toBytes (Bytes b) = Inr b"

definition normalizeSecret :: "bytes_or_hex \<Rightarrow> error + bytes" where
  "normalizeSecret secret =
     (case toBytes secret of
        Inl e \<Rightarrow> Inl e
      | Inr raw \<Rightarrow>
          if length raw = 32 then Inr raw
          else if length raw = 64 then Inr (take 32 raw)
          else Inl (InvalidKeyLength Secret))"

definition normalizePublicKey :: "bytes_or_hex \<Rightarrow> error + bytes" where
  "normalizePublicKey publicKey =
     (case toBytes publicKey of
        Inl e \<Rightarrow> Inl e
      | Inr pk \<Rightarrow> if length pk \<noteq> 32 then Inl (InvalidKeyLength PublicKey) else Inr pk)"

definition sign :: "(bytes \<Rightarrow> bytes \<Rightarrow> bytes) \<Rightarrow> bytes \<Rightarrow> bytes_or_hex \<Rightarrow> error + bytes" where
  "sign ed_sign message secret =
     (case normalizeSecret secret of
        Inl e \<Rightarrow> Inl e
      | Inr seed \<Rightarrow> Inr (ed_sign message seed))"

definition verify ::
  "(bytes \<Rightarrow> bytes \<Rightarrow> bytes \<Rightarrow> bool) \<Rightarrow> bytes \<Rightarrow> bytes_or_hex \<Rightarrow> bytes_or_hex \<Rightarrow> error + bool" where
  "verify ed_verify message signature publicKey =
     (case toBytes signature of
        Inl e \<Rightarrow> Inl e
      | Inr sig \<Rightarrow>
          if length sig \<noteq> 64 then Inl InvalidSignatureLength
          else (case normalizePublicKey publicKey of
                  Inl e \<Rightarrow> Inl e
                | Inr pk \<Rightarrow> Inr (ed_verify sig message pk)))"

definition derivePublicKey :: "(bytes \<Rightarrow> bytes) \<Rightarrow> bytes_or_hex \<Rightarrow> error + bytes" where
  "derivePublicKey ed_getPublicKey secret =
     (case normalizeSecret secret of
        Inl e \<Rightarrow> Inl e
      | Inr seed \<Rightarrow> Inr (ed_getPublicKey seed))"

text \<open>
  A toy signature scheme for evaluating the library at concrete inputs: the public key
  is the seed, a signature is the seed followed by the first 32 bytes of the message
  padded with zeros. It stands in for the external primitive in closed examples only.
\<close>

definition demo_pad :: "bytes \<Rightarrow> bytes" where
  "demo_pad m = take 32 (m @ replicate 32 0)"

definition demo_getPublicKey :: "bytes \<Rightarrow> bytes" where
  "demo_getPublicKey seed = seed"

definition demo_sign :: "bytes \<Rightarrow> bytes \<Rightarrow> bytes" where
  "demo_sign m seed = seed @ demo_pad m"

definition demo_verify :: "bytes \<Rightarrow> bytes \<Rightarrow> bytes \<Rightarrow> bool" where
  "demo_verify sig m pk \<longleftrightarrow> sig = pk @ demo_pad m"

section \<open>Tickets\<close>

text \<open>schema.ts: the fields of a \<^verbatim>\<open>ResolveTicket\<close>. Times are unix seconds.\<close>

datatype ResolveAction = RELEASE | REFUND | SPLIT

type_synonym float64 = "64 word"

record ResolveTicket =
  schema :: string
  deal_id :: string
  action :: ResolveAction
  split_bps :: int
  rationale_cid :: string
  confidence :: float64
  nonce :: int
  expires_at :: int

subsection \<open>The two expiry predicates\<close>

text \<open>
  Both read the clock when the caller passes no time: the last argument is the value of
  \<^verbatim>\<open>Date.now()\<close> (milliseconds) at the call, and \<^verbatim>\<open>Math.floor(Date.now() / 1000)\<close> is
  \<open>div 1000\<close>, which rounds down on \<open>int\<close>.
\<close>

definition helpers_isTicketExpired :: "ResolveTicket \<Rightarrow> int option \<Rightarrow> int \<Rightarrow> bool" where
  "helpers_isTicketExpired ticket currentTime date_now =
     (let now = (case currentTime of Some t \<Rightarrow> t | None \<Rightarrow> date_now div 1000)
      in now > expires_at ticket)"

definition resolveTicketHelpers_isTicketExpired :: "ResolveTicket \<Rightarrow> int option \<Rightarrow> int \<Rightarrow> bool" where
  "resolveTicketHelpers_isTicketExpired ticket nowSeconds date_now =
     (let now = (case nowSeconds of Some t \<Rightarrow> t | None \<Rightarrow> date_now div 1000)
      in expires_at ticket \<le> now)"

section \<open>Values and the canonical encoder's wrapper\<close>

text \<open>
  The values \<^verbatim>\<open>encodeCbor\<close> is given: JSON-like JavaScript values, with \<^verbatim>\<open>undefined\<close>.
  An object is the list of its entries in insertion order (the order of
  \<^verbatim>\<open>Object.entries\<close>). Integers and the other numbers are kept apart, as in the data
  model of the specification; a non-integral number is its binary64 bit pattern.
\<close>

datatype jsvalue =
    JUndefined
  | JNull
  | JBool bool
  | JInt int
  | JFloat float64
  | JStr string
  | JArr "jsvalue list"
  | JObj "(string \<times> jsvalue) list"

text \<open>\<^verbatim>\<open>String(i)\<close> for an array index.\<close>

fun decimal :: "nat \<Rightarrow> string" where
  "decimal n =
     (if n < 10 then [char_of (48 + n)] else decimal (n div 10) @ [char_of (48 + n mod 10)])"

declare decimal.simps [simp del]

text \<open>
  cbor.ts, \<^verbatim>\<open>assertNoUndefined(value, path)\<close>: each \<^verbatim>\<open>for\<close> statement is a function, on
  the elements (with the running index) and on the entries. The error carries the path,
  from which the message is built.
\<close>

fun assertNoUndefined :: "jsvalue \<Rightarrow> string list \<Rightarrow> error + unit"
  and assertNoUndefined_elements :: "jsvalue list \<Rightarrow> nat \<Rightarrow> string list \<Rightarrow> error + unit"
  and assertNoUndefined_entries :: "(string \<times> jsvalue) list \<Rightarrow> string list \<Rightarrow> error + unit"
where
  "assertNoUndefined JUndefined path = Inl (EncodingError path)"
| "assertNoUndefined JNull path = Inr ()"
| "assertNoUndefined (JArr xs) path = assertNoUndefined_elements xs 0 path"
| "assertNoUndefined (JObj kvs) path = assertNoUndefined_entries kvs path"
| "assertNoUndefined (JBool b) path = Inr ()"
| "assertNoUndefined (JInt n) path = Inr ()"
| "assertNoUndefined (JFloat f) path = Inr ()"
| "assertNoUndefined (JStr s) path = Inr ()"
| "assertNoUndefined_elements [] i path = Inr ()"
| "assertNoUndefined_elements (x # xs) i path =
     (case assertNoUndefined x (path @ [decimal i]) of
        Inl e \<Rightarrow> Inl e
      | Inr _ \<Rightarrow> assertNoUndefined_elements xs (Suc i) path)"
| "assertNoUndefined_entries [] path = Inr ()"
| "assertNoUndefined_entries ((k, v) # kvs) path =
     (case assertNoUndefined v (path @ [k]) of
        Inl e \<Rightarrow> Inl e
      | Inr _ \<Rightarrow> assertNoUndefined_entries kvs path)"

text \<open>
  \<^verbatim>\<open>encodeCbor\<close> and \<^verbatim>\<open>decodeCbor\<close> wrap the codec of the \<^verbatim>\<open>cborg\<close> package, which is a
  parameter here. On JSON-like values \<^verbatim>\<open>cborg\<close>'s encoder does not throw; its decoder
  throws on malformed input.
\<close>

definition encodeCbor :: "(jsvalue \<Rightarrow> bytes) \<Rightarrow> jsvalue \<Rightarrow> error + bytes" where
  "encodeCbor cborgEncode v =
     (case assertNoUndefined v [] of
        Inl e \<Rightarrow> Inl e
      | Inr _ \<Rightarrow> Inr (cborgEncode v))"

definition decodeCbor :: "(bytes \<Rightarrow> error + jsvalue) \<Rightarrow> bytes \<Rightarrow> error + jsvalue" where
  "decodeCbor cborgDecode bs = cborgDecode bs"

text \<open>
  The specification's wording of what \<^verbatim>\<open>assertNoUndefined\<close> looks for: an absent marker
  at the root, as a value of a mapping or as an element of a sequence, at any depth.
\<close>

fun has_undefined :: "jsvalue \<Rightarrow> bool" where
  "has_undefined JUndefined = True"
| "has_undefined (JArr xs) = (\<exists>x \<in> set xs. has_undefined x)"
| "has_undefined (JObj kvs) = (\<exists>kv \<in> set kvs. has_undefined (snd kv))"
| "has_undefined _ = False"

subsection \<open>A ticket as a value\<close>

fun action_name :: "ResolveAction \<Rightarrow> string" where
  "action_name RELEASE = ''RELEASE''"
| "action_name REFUND = ''REFUND''"
| "action_name SPLIT = ''SPLIT''"

text \<open>The object a parsed \<^verbatim>\<open>ResolveTicket\<close> is at run time, its keys in the order of the schema.\<close>

definition ticket_entries :: "ResolveTicket \<Rightarrow> (string \<times> jsvalue) list" where
  "ticket_entries t =
     [(''schema'', JStr (schema t)),
      (''deal_id'', JStr (deal_id t)),
      (''action'', JStr (action_name (action t))),
      (''split_bps'', JInt (split_bps t)),
      (''rationale_cid'', JStr (rationale_cid t)),
      (''confidence'', JFloat (confidence t)),
      (''nonce'', JInt (nonce t)),
      (''expires_at'', JInt (expires_at t))]"

definition ticket_value :: "ResolveTicket \<Rightarrow> jsvalue" where
  "ticket_value t = JObj (ticket_entries t)"

subsection \<open>ticketId.ts\<close>

text \<open>
  The hash \<^verbatim>\<open>createHash('sha256')\<close> of Node is a parameter; \<^verbatim>\<open>digest('hex')\<close> renders its
  bytes in lowercase hexadecimal.
\<close>

definition getTicketId :: "(jsvalue \<Rightarrow> bytes) \<Rightarrow> (bytes \<Rightarrow> bytes) \<Rightarrow> jsvalue \<Rightarrow> error + string" where
  "getTicketId cborgEncode sha256 ticket =
     (case encodeCbor cborgEncode ticket of
        Inl e \<Rightarrow> Inl e
      | Inr cborBytes \<Rightarrow> Inr (''ticket:v1:'' @ bytesToHex (sha256 cborBytes)))"

definition verifyTicketId ::
  "(jsvalue \<Rightarrow> bytes) \<Rightarrow> (bytes \<Rightarrow> bytes) \<Rightarrow> jsvalue \<Rightarrow> string \<Rightarrow> error + bool" where
  "verifyTicketId cborgEncode sha256 ticket ident =
     (case getTicketId cborgEncode sha256 ticket of
        Inl e \<Rightarrow> Inl e
      | Inr i \<Rightarrow> Inr (i = ident))"

section \<open>Replay guard\<close>

text \<open>
  The private \<^verbatim>\<open>Map<TicketId, number>\<close> is the list of its entries in insertion order;
  \<^verbatim>\<open>has\<close> looks a key up, \<^verbatim>\<open>set\<close> is \<open>AList.update\<close> (a new key goes to the end),
  \<^verbatim>\<open>size\<close> is the length. \<^verbatim>\<open>accept(ticket)\<close> has one parameter and reads the clock: the
  value of \<^verbatim>\<open>Date.now()\<close> at the call is the last argument of the model.
\<close>

record ReplayGuard =
  seen :: "(string \<times> int) list"

definition new_ReplayGuard :: ReplayGuard where
  "new_ReplayGuard = \<lparr> seen = [] \<rparr>"

definition map_has :: "(string \<times> int) list \<Rightarrow> string \<Rightarrow> bool" where
  "map_has m k \<longleftrightarrow> map_of m k \<noteq> None"

definition prune :: "ReplayGuard \<Rightarrow> int \<Rightarrow> ReplayGuard" where
  "prune g now =
     (if length (seen g) > 1000
      then g\<lparr> seen := filter (\<lambda>(ident, expiry). \<not> expiry < now) (seen g) \<rparr>
      else g)"

definition accept ::
  "(jsvalue \<Rightarrow> bytes) \<Rightarrow> (bytes \<Rightarrow> bytes) \<Rightarrow> ReplayGuard \<Rightarrow> ResolveTicket \<Rightarrow> int
     \<Rightarrow> error + (bool \<times> ReplayGuard)" where
  "accept cborgEncode sha256 g ticket date_now =
     (let now = date_now div 1000 in
      if expires_at ticket < now then Inr (False, g)
      else
        (case getTicketId cborgEncode sha256 (ticket_value ticket) of
           Inl e \<Rightarrow> Inl e
         | Inr ident \<Rightarrow>
             if map_has (seen g) ident then Inr (False, g)
             else Inr (True,
               prune (g\<lparr> seen := AList.update ident (expires_at ticket) (seen g) \<rparr>) now)))"

text \<open>
  The operation as the specification words it, \<^verbatim>\<open>accept(ticket, now)\<close> with the time
  passed in: reject an expired ticket; reject a known identity; otherwise record the
  identity with the ticket's expiry, prune, and accept.
\<close>

definition spec_accept ::
  "(jsvalue \<Rightarrow> bytes) \<Rightarrow> (bytes \<Rightarrow> bytes) \<Rightarrow> ReplayGuard \<Rightarrow> ResolveTicket \<Rightarrow> int
     \<Rightarrow> bool \<times> ReplayGuard" where
  "spec_accept cborgEncode sha256 g ticket now =
     (if expires_at ticket < now then (False, g)
      else if map_has (seen g) (''ticket:v1:'' @ bytesToHex (sha256 (cborgEncode (ticket_value ticket))))
      then (False, g)
      else (True,
        prune (g\<lparr> seen := AList.update
                 (''ticket:v1:'' @ bytesToHex (sha256 (cborgEncode (ticket_value ticket))))
                 (expires_at ticket) (seen g) \<rparr>) now))"

text \<open>The reference of claim C2: the same guard without step 4, so that nothing is ever removed.\<close>

definition accept_unpruned ::
  "(jsvalue \<Rightarrow> bytes) \<Rightarrow> (bytes \<Rightarrow> bytes) \<Rightarrow> ReplayGuard \<Rightarrow> ResolveTicket \<Rightarrow> int
     \<Rightarrow> error + (bool \<times> ReplayGuard)" where
  "accept_unpruned cborgEncode sha256 g ticket date_now =
     (let now = date_now div 1000 in
      if expires_at ticket < now then Inr (False, g)
      else
        (case getTicketId cborgEncode sha256 (ticket_value ticket) of
           Inl e \<Rightarrow> Inl e
         | Inr ident \<Rightarrow>
             if map_has (seen g) ident then Inr (False, g)
             else Inr (True, g\<lparr> seen := AList.update ident (expires_at ticket) (seen g) \<rparr>)))"

text \<open>
  A sequence of calls on one instance: each call is a ticket and the clock reading at
  the call; the result is the list of decisions and the final state. An exception ends
  the run.
\<close>

fun run_calls ::
  "(ReplayGuard \<Rightarrow> ResolveTicket \<Rightarrow> int \<Rightarrow> error + (bool \<times> ReplayGuard))
     \<Rightarrow> ReplayGuard \<Rightarrow> (ResolveTicket \<times> int) list \<Rightarrow> error + (bool list \<times> ReplayGuard)" where
  "run_calls step g [] = Inr ([], g)"
| "run_calls step g ((ticket, date_now) # calls) =
     (case step g ticket date_now of
        Inl e \<Rightarrow> Inl e
      | Inr (d, g') \<Rightarrow>
          (case run_calls step g' calls of
             Inl e \<Rightarrow> Inl e
           | Inr (ds, g'') \<Rightarrow> Inr (d # ds, g'')))"

text \<open>The identity of a typed ticket, and the number of accepted calls with a given identity.\<close>

definition ticket_id :: "(jsvalue \<Rightarrow> bytes) \<Rightarrow> (bytes \<Rightarrow> bytes) \<Rightarrow> ResolveTicket \<Rightarrow> string" where
  "ticket_id cborgEncode sha256 t =
     ''ticket:v1:'' @ bytesToHex (sha256 (cborgEncode (ticket_value t)))"

definition accepted_count ::
  "(ResolveTicket \<Rightarrow> string) \<Rightarrow> string \<Rightarrow> (ResolveTicket \<times> int) list \<Rightarrow> bool list \<Rightarrow> nat" where
  "accepted_count ident x calls ds =
     length (filter (\<lambda>(c, d). d \<and> ident (fst c) = x) (zip calls ds))"

section \<open>Quorum verifier\<close>

text \<open>
  \<^verbatim>\<open>verifyQuorum\<close>. The test \<^verbatim>\<open>k.length === pubKey.length && k.every((byte, i) => byte === pubKey[i])\<close>
  is \<open>bytes_equal\<close>; \<^verbatim>\<open>usedPubKeys\<close> is a set of hex strings
  (\<^verbatim>\<open>Buffer.from(pubKey).toString('hex')\<close>); a signature entry is the pair of its
  \<^verbatim>\<open>pubKey\<close> and its \<^verbatim>\<open>sig\<close>.
\<close>

definition bytes_equal :: "bytes \<Rightarrow> bytes \<Rightarrow> bool" where
  "bytes_equal k pubKey \<longleftrightarrow>
     length k = length pubKey \<and> list_all (\<lambda>i. k ! i = pubKey ! i) [0..<length k]"

fun quorum_loop ::
  "(bytes \<Rightarrow> bytes \<Rightarrow> bytes \<Rightarrow> bool) \<Rightarrow> bytes \<Rightarrow> bytes list \<Rightarrow> (bytes \<times> bytes) list
     \<Rightarrow> nat \<Rightarrow> string set \<Rightarrow> error + nat" where
  "quorum_loop ed_verify ticketBytes authorizedPubKeys [] validCount usedPubKeys = Inr validCount"
| "quorum_loop ed_verify ticketBytes authorizedPubKeys ((pubKey, sig) # rest) validCount usedPubKeys =
     (if \<not> list_ex (\<lambda>k. bytes_equal k pubKey) authorizedPubKeys
      then quorum_loop ed_verify ticketBytes authorizedPubKeys rest validCount usedPubKeys
      else
        (let keyString = bytesToHex pubKey in
         if keyString \<in> usedPubKeys
         then quorum_loop ed_verify ticketBytes authorizedPubKeys rest validCount usedPubKeys
         else
           (case verify ed_verify ticketBytes (Bytes sig) (Bytes pubKey) of
              Inl e \<Rightarrow> Inl e
            | Inr ok \<Rightarrow>
                if ok
                then quorum_loop ed_verify ticketBytes authorizedPubKeys rest
                       (validCount + 1) (insert keyString usedPubKeys)
                else quorum_loop ed_verify ticketBytes authorizedPubKeys rest
                       validCount usedPubKeys)))"

definition verifyQuorum ::
  "(jsvalue \<Rightarrow> bytes) \<Rightarrow> (bytes \<Rightarrow> bytes \<Rightarrow> bytes \<Rightarrow> bool) \<Rightarrow> ResolveTicket
     \<Rightarrow> (bytes \<times> bytes) list \<Rightarrow> bytes list \<Rightarrow> int \<Rightarrow> error + bool" where
  "verifyQuorum cborgEncode ed_verify ticket signatures authorizedPubKeys threshold =
     (case encodeCbor cborgEncode (ticket_value ticket) of
        Inl e \<Rightarrow> Inl e
      | Inr ticketBytes \<Rightarrow>
          (case quorum_loop ed_verify ticketBytes authorizedPubKeys signatures 0 {} of
             Inl e \<Rightarrow> Inl e
           | Inr validCount \<Rightarrow> Inr (int validCount \<ge> threshold)))"

text \<open>
  The set of signers that claim C1 counts: the authorized keys with at least one
  submitted signature that verifies.
\<close>

definition counted_signers ::
  "(bytes \<Rightarrow> bytes \<Rightarrow> bytes \<Rightarrow> bool) \<Rightarrow> bytes \<Rightarrow> bytes list \<Rightarrow> (bytes \<times> bytes) list \<Rightarrow> bytes set" where
  "counted_signers ed_verify ticketBytes authorizedPubKeys signatures =
     set (map fst (filter
       (\<lambda>p. fst p \<in> set authorizedPubKeys \<and> ed_verify (snd p) ticketBytes (fst p)) signatures))"

section \<open>The canonical byte format\<close>

text \<open>
  Modelled from the spec: the codec of the \<^verbatim>\<open>cborg\<close> package (\<^verbatim>\<open>encode\<close> with
  \<^verbatim>\<open>canonical: true\<close>, \<^verbatim>\<open>decode\<close>), which is not among the sources. The byte format
  is CBOR with the canonicalization rules of the specification: the keys of a map in
  lexicographic byte-wise order; an integer, and every length, in the shortest of the
  forms of 0, 1, 2, 4 or 8 bytes that holds it; a string as its UTF-8 bytes after its
  length; a non-integral number in the one width of 8 bytes and the one bit pattern of
  its numeric value (one NaN, one zero). A string is the list of its UTF-8 bytes, so a
  character is a byte.
\<close>

definition byte_of_char :: "char \<Rightarrow> byte" where
  "byte_of_char c = of_nat (of_char c)"

text \<open>Modelled from the spec: the character of a byte, when a string is decoded.\<close>

definition char_of_byte :: "byte \<Rightarrow> char" where
  "char_of_byte b = char_of (unat b)"

text \<open>Modelled from the spec: a number in \<open>k\<close> bytes, most significant first.\<close>

fun be_bytes :: "nat \<Rightarrow> nat \<Rightarrow> bytes" where
  "be_bytes 0 n = []"
| "be_bytes (Suc k) n = be_bytes k (n div 256) @ [of_nat n]"

text \<open>Modelled from the spec: the value of bytes read most significant first.\<close>

definition be_value :: "bytes \<Rightarrow> nat" where
  "be_value bs = foldl (\<lambda>a b. a * 256 + unat b) 0 bs"

text \<open>
  Modelled from the spec: the initial byte of an item holds its major type (3 bits) and
  either the argument itself (below 24) or the width of the argument that follows. An
  argument of 64 bits or more does not occur for a JavaScript value (lengths and safe
  integers are below \<open>2 ^ 53\<close>); the last branch then writes its low 8 bytes.
\<close>

definition head_byte :: "nat \<Rightarrow> nat \<Rightarrow> byte" where
  "head_byte major info = of_nat (major * 32 + info)"

text \<open>Modelled from the spec: the head of an item, its argument in the shortest form.\<close>

definition cbor_head :: "nat \<Rightarrow> nat \<Rightarrow> bytes" where
  "cbor_head major n =
     (if n < 24 then [head_byte major n]
      else if n < 2 ^ 8 then head_byte major 24 # be_bytes 1 n
      else if n < 2 ^ 16 then head_byte major 25 # be_bytes 2 n
      else if n < 2 ^ 32 then head_byte major 26 # be_bytes 4 n
      else head_byte major 27 # be_bytes 8 n)"

text \<open>Modelled from the spec: a string is its length and its UTF-8 bytes.\<close>

definition cbor_text :: "string \<Rightarrow> bytes" where
  "cbor_text s = cbor_head 3 (length s) @ map byte_of_char s"

text \<open>
  Modelled from the spec: the single bit pattern of a numeric value. A NaN (the exponent
  all ones and a fraction that is not zero, whatever the sign) is written as the one
  quiet NaN without payload, a zero of either sign as the positive zero; every other
  number has one pattern only, its own.
\<close>

definition is_nan :: "float64 \<Rightarrow> bool" where
  "is_nan f \<longleftrightarrow> unat f mod 2 ^ 63 > 0x7ff0000000000000"

definition float_canonical :: "float64 \<Rightarrow> float64" where
  "float_canonical f =
     (if is_nan f then 0x7ff8000000000000
      else if unat f mod 2 ^ 63 = 0 then 0
      else f)"

text \<open>
  Modelled from the spec: the encoder. The entries of a map are encoded, then ordered by
  key; a number is written in its single bit pattern. \<^verbatim>\<open>undefined\<close> has an encoding of
  its own, which \<open>encodeCbor\<close> never asks for.
\<close>

fun cbor_encode :: "jsvalue \<Rightarrow> bytes" where
  "cbor_encode JUndefined = [0xf7]"
| "cbor_encode JNull = [0xf6]"
| "cbor_encode (JBool b) = [if b then 0xf5 else 0xf4]"
| "cbor_encode (JInt n) = (if 0 \<le> n then cbor_head 0 (nat n) else cbor_head 1 (nat (- 1 - n)))"
| "cbor_encode (JFloat f) = 0xfb # be_bytes 8 (unat (float_canonical f))"
| "cbor_encode (JStr s) = cbor_text s"
| "cbor_encode (JArr xs) = cbor_head 4 (length xs) @ concat (map cbor_encode xs)"
| "cbor_encode (JObj kvs) =
     cbor_head 5 (length kvs) @
     concat (map (\<lambda>(k, e). cbor_text k @ e)
       (sort_key fst (map (\<lambda>(k, v). (k, cbor_encode v)) kvs)))"

text \<open>
  Modelled from the spec: the decoder, the inverse of the encoder on its image; it fails
  on truncated input and on items the encoder never writes. The first argument bounds
  the nesting depth, and \<open>cbor_decode\<close> starts it at the length of the input, which no
  nesting can exceed; bytes after the first item are left unread.
\<close>

definition take_be :: "nat \<Rightarrow> bytes \<Rightarrow> (nat \<times> bytes) option" where
  "take_be k bs = (if length bs < k then None else Some (be_value (take k bs), drop k bs))"

text \<open>Modelled from the spec: the argument that the initial byte announces.\<close>

definition cbor_argument :: "nat \<Rightarrow> bytes \<Rightarrow> (nat \<times> bytes) option" where
  "cbor_argument info bs =
     (if info < 24 then Some (info, bs)
      else if info = 24 then take_be 1 bs
      else if info = 25 then take_be 2 bs
      else if info = 26 then take_be 4 bs
      else if info = 27 then take_be 8 bs
      else None)"

text \<open>
  Modelled from the spec: one item, \<open>n\<close> items of a sequence, \<open>n\<close> entries of a mapping
  (a key must be a string). Each returns the bytes it has not read.
\<close>

fun decode_item :: "nat \<Rightarrow> bytes \<Rightarrow> (jsvalue \<times> bytes) option"
  and decode_items :: "nat \<Rightarrow> nat \<Rightarrow> bytes \<Rightarrow> (jsvalue list \<times> bytes) option"
  and decode_entries :: "nat \<Rightarrow> nat \<Rightarrow> bytes \<Rightarrow> ((string \<times> jsvalue) list \<times> bytes) option"
where
  "decode_item 0 bs = None"
| "decode_item (Suc fuel) [] = None"
| "decode_item (Suc fuel) (b # bs) =
     (let major = unat b div 32; info = unat b mod 32 in
      if major = 7 then
        (if info = 20 then Some (JBool False, bs)
         else if info = 21 then Some (JBool True, bs)
         else if info = 22 then Some (JNull, bs)
         else if info = 23 then Some (JUndefined, bs)
         else if info = 27 then
           (case take_be 8 bs of
              None \<Rightarrow> None
            | Some (w, rest) \<Rightarrow> Some (JFloat (of_nat w), rest))
         else None)
      else
        (case cbor_argument info bs of
           None \<Rightarrow> None
         | Some (n, rest) \<Rightarrow>
             if major = 0 then Some (JInt (int n), rest)
             else if major = 1 then Some (JInt (- 1 - int n), rest)
             else if major = 3 then
               (if length rest < n then None
                else Some (JStr (map char_of_byte (take n rest)), drop n rest))
             else if major = 4 then
               (case decode_items fuel n rest of
                  None \<Rightarrow> None
                | Some (xs, rest') \<Rightarrow> Some (JArr xs, rest'))
             else if major = 5 then
               (case decode_entries fuel n rest of
                  None \<Rightarrow> None
                | Some (kvs, rest') \<Rightarrow> Some (JObj kvs, rest'))
             else None))"
| "decode_items fuel 0 bs = Some ([], bs)"
| "decode_items fuel (Suc n) bs =
     (case decode_item fuel bs of
        None \<Rightarrow> None
      | Some (x, rest) \<Rightarrow>
          (case decode_items fuel n rest of
             None \<Rightarrow> None
           | Some (xs, rest') \<Rightarrow> Some (x # xs, rest')))"
| "decode_entries fuel 0 bs = Some ([], bs)"
| "decode_entries fuel (Suc n) bs =
     (case decode_item fuel bs of
        Some (JStr k, rest) \<Rightarrow>
          (case decode_item fuel rest of
             None \<Rightarrow> None
           | Some (v, rest') \<Rightarrow>
               (case decode_entries fuel n rest' of
                  None \<Rightarrow> None
                | Some (kvs, rest'') \<Rightarrow> Some ((k, v) # kvs, rest'')))
      | _ \<Rightarrow> None)"

text \<open>Modelled from the spec: \<^verbatim>\<open>decode\<close>, failing with \<open>DecodingError\<close>.\<close>

definition cbor_decode :: "bytes \<Rightarrow> error + jsvalue" where
  "cbor_decode bs =
     (case decode_item (length bs) bs of
        None \<Rightarrow> Inl DecodingError
      | Some (v, rest) \<Rightarrow> Inr v)"

text \<open>
  Equality of values as the specification means it (\<open>decode(encode(v)) == v\<close>): the order
  of the entries of a mapping does not count. \<open>sort_entries\<close> orders the entries of every
  mapping by key; two values are equal when they are the same with their entries so
  ordered. The bit patterns of numbers are compared as they are.
\<close>

fun sort_entries :: "jsvalue \<Rightarrow> jsvalue" where
  "sort_entries (JArr xs) = JArr (map sort_entries xs)"
| "sort_entries (JObj kvs) = JObj (sort_key fst (map (\<lambda>(k, v). (k, sort_entries v)) kvs))"
| "sort_entries v = v"

definition js_equal :: "jsvalue \<Rightarrow> jsvalue \<Rightarrow> bool" where
  "js_equal a b \<longleftrightarrow> sort_entries a = sort_entries b"

text \<open>
  Modelled from the spec: the canonical form of a value, which is what its canonical
  bytes denote: the entries of every mapping ordered by key and every non-integral
  number in its single bit pattern.
\<close>

fun canonical :: "jsvalue \<Rightarrow> jsvalue" where
  "canonical (JFloat f) = JFloat (float_canonical f)"
| "canonical (JArr xs) = JArr (map canonical xs)"
| "canonical (JObj kvs) = JObj (sort_key fst (map (\<lambda>(k, v). (k, canonical v)) kvs))"
| "canonical v = v"

text \<open>
  Modelled from the spec: every non-integral number of the value is in its single bit
  pattern already (no negative zero, no NaN but the one).
\<close>

fun floats_canonical :: "jsvalue \<Rightarrow> bool" where
  "floats_canonical (JFloat f) = (float_canonical f = f)"
| "floats_canonical (JArr xs) = (\<forall>x \<in> set xs. floats_canonical x)"
| "floats_canonical (JObj kvs) = (\<forall>kv \<in> set kvs. floats_canonical (snd kv))"
| "floats_canonical v = True"

text \<open>
  A structurally valid value: the keys of every mapping are distinct, and integers and
  lengths fit the 64-bit argument of the byte format, as those of every JavaScript value
  do.
\<close>

fun structurally_valid :: "jsvalue \<Rightarrow> bool" where
  "structurally_valid (JInt n) = (- (2 ^ 64) \<le> n \<and> n < 2 ^ 64)"
| "structurally_valid (JStr s) = (length s < 2 ^ 64)"
| "structurally_valid (JArr xs) = (length xs < 2 ^ 64 \<and> (\<forall>x \<in> set xs. structurally_valid x))"
| "structurally_valid (JObj kvs) =
     (length kvs < 2 ^ 64 \<and> distinct (map fst kvs) \<and>
      (\<forall>kv \<in> set kvs. length (fst kv) < 2 ^ 64 \<and> structurally_valid (snd kv)))"
| "structurally_valid _ = True"

text \<open>The nesting depth of a value.\<close>

fun depth :: "jsvalue \<Rightarrow> nat" where
  "depth (JArr xs) = Suc (foldr max (map depth xs) 0)"
| "depth (JObj kvs) = Suc (foldr max (map (\<lambda>kv. depth (snd kv)) kvs) 0)"
| "depth _ = 1"


section \<open>Examples\<close>

text \<open>
  Stand-ins for the external encoder and hash in closed examples: the encoding of a
  ticket is its nonce as one byte, the hash is the identity.
\<close>

definition demo_encode :: "jsvalue \<Rightarrow> bytes" where
  "demo_encode v =
     (case v of
        JObj kvs \<Rightarrow> (case map_of kvs ''nonce'' of Some (JInt n) \<Rightarrow> [of_int n] | _ \<Rightarrow> [])
      | _ \<Rightarrow> [])"

definition demo_sha256 :: "bytes \<Rightarrow> bytes" where
  "demo_sha256 bs = bs"

text \<open>The ticket of the worked example (confidence 0.9 as its binary64 bit pattern).\<close>

definition demo_ticket :: ResolveTicket where
  "demo_ticket =
     \<lparr> schema = ''escrow.v1.ResolveTicket'', deal_id = ''D-1'', action = RELEASE,
       split_bps = 0, rationale_cid = ''bafy...'', confidence = 0x3FECCCCCCCCCCCCD,
       nonce = 1, expires_at = 2000000000 \<rparr>"

definition demo_ticket2 :: ResolveTicket where
  "demo_ticket2 = demo_ticket\<lparr> nonce := 2, expires_at := 1500 \<rparr>"

section \<open>Properties\<close>

subsection \<open>Signature engine\<close>

text \<open>
  Claim C6, as the code has it. The signature is converted and its length checked first:
  whatever the public key is, a signature that is not 64 bytes long gives
  \<open>InvalidSignatureLength\<close>. Only a 64-byte signature lets the public key be looked at,
  and then a key that is not 32 bytes long gives \<open>InvalidKeyLength\<close>. With both lengths
  right the result is the boolean of the primitive, never an error. In the two error
  cases the result does not depend on the primitive \<open>V\<close>: the guards come before any
  cryptographic comparison.
\<close>

theorem verify_length_guards:
  "toBytes signature = Inr sig \<Longrightarrow>
     (length sig \<noteq> 64 \<longrightarrow> verify V m signature publicKey = Inl InvalidSignatureLength) \<and>
     (length sig = 64 \<longrightarrow>
        (\<forall>pk. toBytes publicKey = Inr pk \<longrightarrow>
           verify V m signature publicKey =
             (if length pk \<noteq> 32 then Inl (InvalidKeyLength PublicKey)
              else Inr (V sig m pk))))"
  by (simp add: verify_def normalizePublicKey_def)

theorem verify_length_guards_witness:
  "verify demo_verify [1, 2] (Bytes (replicate 63 7)) (Bytes (replicate 32 9))
     = Inl InvalidSignatureLength \<and>
   verify demo_verify [1, 2] (Bytes (replicate 65 7)) (Bytes (replicate 32 9))
     = Inl InvalidSignatureLength \<and>
   verify demo_verify [1, 2] (Bytes (replicate 64 7)) (Bytes (replicate 33 9))
     = Inl (InvalidKeyLength PublicKey) \<and>
   verify demo_verify [1, 2] (Bytes (replicate 64 7)) (Bytes (replicate 32 9))
     = Inr (demo_verify (replicate 64 7) [1, 2] (replicate 32 9))"
  using
    verify_length_guards [of "Bytes (replicate 63 7)" "replicate 63 7" demo_verify "[1, 2]"
      "Bytes (replicate 32 9)"]
    verify_length_guards [of "Bytes (replicate 65 7)" "replicate 65 7" demo_verify "[1, 2]"
      "Bytes (replicate 32 9)"]
    verify_length_guards [of "Bytes (replicate 64 7)" "replicate 64 7" demo_verify "[1, 2]"
      "Bytes (replicate 33 9)"]
    verify_length_guards [of "Bytes (replicate 64 7)" "replicate 64 7" demo_verify "[1, 2]"
      "Bytes (replicate 32 9)"]
  by simp

text \<open>
  Claim C6 as it is written asks for \<open>InvalidKeyLength\<close> whenever the public key is not
  32 bytes long. With a 63-byte signature and a 31-byte key the signature guard fires
  first and the error is \<open>InvalidSignatureLength\<close>.
\<close>

theorem verify_key_length_counterexample:
  "length (replicate 31 (0 :: byte)) \<noteq> 32 \<and>
   verify demo_verify [] (Bytes (replicate 63 0)) (Bytes (replicate 31 0))
     \<noteq> Inl (InvalidKeyLength PublicKey)"
  by (simp add: verify_def)

text \<open>
  Claim C9. A secret whose bytes are \<open>raw\<close> is accepted by \<open>sign\<close> and
  \<open>derivePublicKey\<close> when it is 32 bytes long (the seed is \<open>raw\<close>) or 64 bytes long (the
  seed is the first 32 bytes), and rejected with \<open>InvalidKeyLength\<close> for every other
  length. Hence a 64-byte secret and its first 32 bytes sign alike and derive the same
  public key.
\<close>

theorem secret_length_rules:
  "(toBytes secret = Inr raw \<longrightarrow>
      sign S m secret =
        (if length raw = 32 then Inr (S m raw)
         else if length raw = 64 then Inr (S m (take 32 raw))
         else Inl (InvalidKeyLength Secret)) \<and>
      derivePublicKey G secret =
        (if length raw = 32 then Inr (G raw)
         else if length raw = 64 then Inr (G (take 32 raw))
         else Inl (InvalidKeyLength Secret))) \<and>
   (length s = 64 \<longrightarrow>
      sign S m (Bytes s) = sign S m (Bytes (take 32 s)) \<and>
      sign S m (Bytes s) = Inr (S m (take 32 s)) \<and>
      derivePublicKey G (Bytes s) = derivePublicKey G (Bytes (take 32 s)) \<and>
      derivePublicKey G (Bytes s) = Inr (G (take 32 s)))"
  by (simp add: sign_def derivePublicKey_def normalizeSecret_def)

theorem secret_length_rules_witness:
  "sign demo_sign [5] (Bytes (replicate 64 3)) = sign demo_sign [5] (Bytes (replicate 32 3)) \<and>
   derivePublicKey demo_getPublicKey (Bytes (replicate 64 3)) = Inr (demo_getPublicKey (replicate 32 3)) \<and>
   sign demo_sign [5] (Bytes (replicate 31 3)) = Inl (InvalidKeyLength Secret) \<and>
   derivePublicKey demo_getPublicKey (Bytes (replicate 65 3)) = Inl (InvalidKeyLength Secret)"
  using
    secret_length_rules [of "Bytes (replicate 64 3)" "replicate 64 3" demo_sign "[5]"
      demo_getPublicKey "replicate 64 3"]
    secret_length_rules [of "Bytes (replicate 31 3)" "replicate 31 3" demo_sign "[5]"
      demo_getPublicKey "replicate 64 3"]
    secret_length_rules [of "Bytes (replicate 65 3)" "replicate 65 3" demo_sign "[5]"
      demo_getPublicKey "replicate 64 3"]
  by simp

subsection \<open>Expiry predicates\<close>

text \<open>
  Claim C10. The predicate of helpers.ts is \<open>now > expires_at\<close>, the one of
  resolveTicketHelpers.ts is \<open>expires_at \<le> now\<close>, with the time passed in or read from
  the clock. They differ exactly when the time equals \<open>expires_at\<close>: there the first says
  not expired and the second says expired.
\<close>

theorem expiry_predicates_differ_at_boundary:
  "helpers_isTicketExpired t (Some now) clock = (now > expires_at t) \<and>
   resolveTicketHelpers_isTicketExpired t (Some now) clock = (expires_at t \<le> now) \<and>
   helpers_isTicketExpired t None clock = (clock div 1000 > expires_at t) \<and>
   resolveTicketHelpers_isTicketExpired t None clock = (expires_at t \<le> clock div 1000) \<and>
   ((helpers_isTicketExpired t (Some now) clock
       \<noteq> resolveTicketHelpers_isTicketExpired t (Some now) clock) = (expires_at t = now)) \<and>
   (expires_at t = now \<longrightarrow>
      \<not> helpers_isTicketExpired t (Some now) clock \<and>
      resolveTicketHelpers_isTicketExpired t (Some now) clock)"
  by (auto simp add: helpers_isTicketExpired_def resolveTicketHelpers_isTicketExpired_def)

theorem expiry_predicates_differ_at_boundary_witness:
  "expires_at demo_ticket = 2000000000 \<and>
   \<not> helpers_isTicketExpired demo_ticket (Some 2000000000) 0 \<and>
   resolveTicketHelpers_isTicketExpired demo_ticket (Some 2000000000) 0"
  using expiry_predicates_differ_at_boundary [of demo_ticket 2000000000 0]
  by (simp add: demo_ticket_def)

subsection \<open>Absent markers\<close>

lemma assertNoUndefined_result:
  "(\<exists>q. assertNoUndefined v p = Inl (EncodingError q)) = has_undefined v \<and>
   (assertNoUndefined v p = Inr ()) = (\<not> has_undefined v)"
  "(\<exists>q. assertNoUndefined_elements xs i p = Inl (EncodingError q)) = (\<exists>x \<in> set xs. has_undefined x) \<and>
   (assertNoUndefined_elements xs i p = Inr ()) = (\<not> (\<exists>x \<in> set xs. has_undefined x))"
  "(\<exists>q. assertNoUndefined_entries kvs p = Inl (EncodingError q)) = (\<exists>kv \<in> set kvs. has_undefined (snd kv)) \<and>
   (assertNoUndefined_entries kvs p = Inr ()) = (\<not> (\<exists>kv \<in> set kvs. has_undefined (snd kv)))"
proof (induction v p and xs i p and kvs p
    rule: assertNoUndefined_assertNoUndefined_elements_assertNoUndefined_entries.induct)
  case (10 x xs i path)
  then show ?case
    by (cases "assertNoUndefined x (path @ [decimal i])") auto
next
  case (12 k v kvs path)
  then show ?case
    by (cases "assertNoUndefined v (path @ [k])") auto
qed simp_all

lemma assertNoUndefined_ok: "assertNoUndefined v p = Inr () \<longleftrightarrow> \<not> has_undefined v"
  using assertNoUndefined_result(1) by blast

lemma assertNoUndefined_fails:
  "(\<exists>q. assertNoUndefined v p = Inl (EncodingError q)) \<longleftrightarrow> has_undefined v"
  using assertNoUndefined_result(1) by blast

lemma encodeCbor_ok: "\<not> has_undefined v \<Longrightarrow> encodeCbor enc v = Inr (enc v)"
  using assertNoUndefined_ok [of v "[]"] by (simp add: encodeCbor_def)

lemma encodeCbor_fails: "has_undefined v \<Longrightarrow> \<exists>q. encodeCbor enc v = Inl (EncodingError q)"
  using assertNoUndefined_fails [of v "[]"] by (auto simp add: encodeCbor_def)

text \<open>
  Claim C7. Whatever the codec, \<open>encodeCbor\<close> fails with \<open>EncodingError\<close> exactly when the
  value has an absent marker at some depth (at the root, as a value of a mapping, as an
  element of a sequence). A value without one is handed to the codec, and no other error
  comes out of \<open>encodeCbor\<close>.
\<close>

theorem encode_rejects_exactly_undefined:
  "((\<exists>path. encodeCbor enc v = Inl (EncodingError path)) \<longleftrightarrow> has_undefined v) \<and>
   (\<not> has_undefined v \<longrightarrow> encodeCbor enc v = Inr (enc v)) \<and>
   (\<forall>e. encodeCbor enc v = Inl e \<longrightarrow> has_undefined v \<and> (\<exists>path. e = EncodingError path))"
proof (cases "has_undefined v")
  case True
  then show ?thesis using encodeCbor_fails [of v enc] by auto
next
  case False
  then show ?thesis using encodeCbor_ok [of v enc] by auto
qed

theorem encode_rejects_exactly_undefined_witness:
  "has_undefined (JObj [(''a'', JArr [JInt 1, JObj [(''b'', JUndefined)]])]) \<and>
   (\<exists>path. encodeCbor demo_encode (JObj [(''a'', JArr [JInt 1, JObj [(''b'', JUndefined)]])])
      = Inl (EncodingError path)) \<and>
   \<not> has_undefined (JObj [(''a'', JArr [JInt 1, JObj [(''b'', JNull)]])]) \<and>
   encodeCbor demo_encode (JObj [(''a'', JArr [JInt 1, JObj [(''b'', JNull)]])])
      = Inr (demo_encode (JObj [(''a'', JArr [JInt 1, JObj [(''b'', JNull)]])]))"
  using
    encode_rejects_exactly_undefined
      [of demo_encode "JObj [(''a'', JArr [JInt 1, JObj [(''b'', JUndefined)]])]"]
    encode_rejects_exactly_undefined
      [of demo_encode "JObj [(''a'', JArr [JInt 1, JObj [(''b'', JNull)]])]"]
  by simp

subsection \<open>Replay guard: one call\<close>

lemma ticket_value_defined: "\<not> has_undefined (ticket_value t)"
  by (simp add: ticket_value_def ticket_entries_def)

lemma getTicketId_ticket: "getTicketId enc sha (ticket_value t) = Inr (ticket_id enc sha t)"
  by (simp add: getTicketId_def ticket_id_def encodeCbor_ok ticket_value_defined)

lemma accept_eq:
  "accept enc sha g t c =
     Inr (if expires_at t < c div 1000 then (False, g)
          else if map_has (seen g) (ticket_id enc sha t) then (False, g)
          else (True,
            prune (g\<lparr> seen := AList.update (ticket_id enc sha t) (expires_at t) (seen g) \<rparr>)
              (c div 1000)))"
  by (simp add: accept_def getTicketId_ticket Let_def)

lemma accept_unpruned_eq:
  "accept_unpruned enc sha g t c =
     Inr (if expires_at t < c div 1000 then (False, g)
          else if map_has (seen g) (ticket_id enc sha t) then (False, g)
          else (True, g\<lparr> seen := AList.update (ticket_id enc sha t) (expires_at t) (seen g) \<rparr>))"
  by (simp add: accept_unpruned_def getTicketId_ticket Let_def)

lemma map_of_filter_keep:
  "map_of m k = Some v \<Longrightarrow> P (k, v) \<Longrightarrow> map_of (filter P m) k = Some v"
  by (induction m) (auto split: if_splits)

lemma map_of_prune_keep:
  "map_of (seen g) k = Some v \<Longrightarrow> \<not> v < now \<Longrightarrow> map_of (seen (prune g now)) k = Some v"
  by (simp add: prune_def map_of_filter_keep)

text \<open>
  Claim C4, with \<open>now = \<lfloor>Date.now() / 1000\<rfloor>\<close> the time the call observes. An expired
  ticket is rejected and the state is the one before; a ticket whose identity is in the
  table is rejected and the state (hence the recorded expiry) is the one before; a
  fresh ticket that has not expired is accepted, the new state maps its identity to its
  \<open>expires_at\<close>, and the same ticket is rejected in that state at whatever time.
\<close>

theorem accept_cases:
  "(expires_at t < clock div 1000 \<longrightarrow> accept enc sha g t clock = Inr (False, g)) \<and>
   (map_has (seen g) (ticket_id enc sha t) \<longrightarrow> accept enc sha g t clock = Inr (False, g)) \<and>
   (\<not> expires_at t < clock div 1000 \<and> \<not> map_has (seen g) (ticket_id enc sha t) \<longrightarrow>
      (\<exists>g'. accept enc sha g t clock = Inr (True, g') \<and>
            map_of (seen g') (ticket_id enc sha t) = Some (expires_at t) \<and>
            (\<forall>clock'. accept enc sha g' t clock' = Inr (False, g'))))"
proof -
  have "map_of (seen (prune (g\<lparr> seen := AList.update (ticket_id enc sha t) (expires_at t) (seen g) \<rparr>)
          (clock div 1000))) (ticket_id enc sha t) = Some (expires_at t)"
    if "\<not> expires_at t < clock div 1000"
    using that by (intro map_of_prune_keep) (simp_all add: update_conv')
  then show ?thesis
    by (auto simp add: accept_eq map_has_def)
qed

theorem accept_cases_witness:
  "accept demo_encode demo_sha256 new_ReplayGuard demo_ticket 3000000000000
     = Inr (False, new_ReplayGuard) \<and>
   accept demo_encode demo_sha256 \<lparr> seen = [(ticket_id demo_encode demo_sha256 demo_ticket, 7)] \<rparr>
       demo_ticket 1000000
     = Inr (False, \<lparr> seen = [(ticket_id demo_encode demo_sha256 demo_ticket, 7)] \<rparr>) \<and>
   (\<exists>g'. accept demo_encode demo_sha256 new_ReplayGuard demo_ticket 1000000 = Inr (True, g') \<and>
         map_of (seen g') (ticket_id demo_encode demo_sha256 demo_ticket) = Some 2000000000 \<and>
         accept demo_encode demo_sha256 g' demo_ticket 1000000 = Inr (False, g'))"
proof -
  let ?i = "ticket_id demo_encode demo_sha256 demo_ticket"
  have e: "expires_at demo_ticket = 2000000000"
    by (simp add: demo_ticket_def)
  have fresh: "\<not> map_has (seen new_ReplayGuard) ?i"
    by (simp add: new_ReplayGuard_def map_has_def)
  have known: "map_has (seen \<lparr> seen = [(?i, 7)] \<rparr>) ?i"
    by (simp add: map_has_def)
  have 1: "accept demo_encode demo_sha256 new_ReplayGuard demo_ticket 3000000000000
             = Inr (False, new_ReplayGuard)"
    using accept_cases [of demo_ticket 3000000000000 demo_encode demo_sha256 new_ReplayGuard] e
    by simp
  have 2: "accept demo_encode demo_sha256 \<lparr> seen = [(?i, 7)] \<rparr> demo_ticket 1000000
             = Inr (False, \<lparr> seen = [(?i, 7)] \<rparr>)"
    using accept_cases [of demo_ticket 1000000 demo_encode demo_sha256 "\<lparr> seen = [(?i, 7)] \<rparr>"]
      known
    by simp
  have 3: "\<exists>g'. accept demo_encode demo_sha256 new_ReplayGuard demo_ticket 1000000 = Inr (True, g') \<and>
         map_of (seen g') ?i = Some 2000000000 \<and>
         accept demo_encode demo_sha256 g' demo_ticket 1000000 = Inr (False, g')"
    using accept_cases [of demo_ticket 1000000 demo_encode demo_sha256 new_ReplayGuard] e fresh
    by auto
  show ?thesis
    using 1 2 3 by blast
qed

text \<open>
  Claim C5, as the code has it. \<open>accept\<close> has no time parameter: it reads the clock, and
  its result is the specification's \<open>accept(ticket, now)\<close> at
  \<open>now = \<lfloor>Date.now() / 1000\<rfloor>\<close>. So the result is a function of the guard state, the
  ticket and the whole seconds of the clock reading at the call, and it never raises for
  a typed ticket.
\<close>

theorem accept_reads_clock:
  "accept enc sha g t date_now = Inr (spec_accept enc sha g t (date_now div 1000)) \<and>
   (date_now div 1000 = date_now' div 1000 \<longrightarrow>
      accept enc sha g t date_now = accept enc sha g t date_now')"
  by (simp add: accept_eq spec_accept_def ticket_id_def)

theorem accept_reads_clock_witness:
  "accept demo_encode demo_sha256 new_ReplayGuard demo_ticket 1000000
     = accept demo_encode demo_sha256 new_ReplayGuard demo_ticket 1000999"
  using accept_reads_clock
    [THEN conjunct2, of 1000000 1000999 demo_encode demo_sha256 new_ReplayGuard demo_ticket]
  by simp

text \<open>
  Claim C5 as it is written makes the result a function of the arguments of the call.
  The same guard and the same ticket give different results at two clock readings.
\<close>

theorem accept_clock_counterexample:
  "accept demo_encode demo_sha256 new_ReplayGuard demo_ticket 1000000
     \<noteq> accept demo_encode demo_sha256 new_ReplayGuard demo_ticket 3000000000000"
  by (simp add: accept_eq demo_ticket_def new_ReplayGuard_def map_has_def)

subsection \<open>Replay guard: a sequence of calls\<close>

lemma map_has_iff: "map_has m k \<longleftrightarrow> k \<in> fst ` set m"
  by (simp add: map_has_def map_of_eq_None_iff)

lemma set_update_fresh: "k \<notin> fst ` set al \<Longrightarrow> set (AList.update k v al) = insert (k, v) (set al)"
  by (induction al) auto

lemma seen_prune_subset: "set (seen (prune g now)) \<subseteq> set (seen g)"
  by (auto simp add: prune_def)

lemma seen_prune_dropped: "p \<in> set (seen g) \<Longrightarrow> p \<notin> set (seen (prune g now)) \<Longrightarrow> snd p < now"
  by (auto simp add: prune_def split: if_splits)

lemma pruned_simulates_unpruned:
  assumes "sorted (map (\<lambda>(t, c). c div 1000) calls)"
    and "\<forall>(t, c) \<in> set calls. now0 \<le> c div 1000"
    and "set (seen gp) \<subseteq> set (seen gu)"
    and "\<forall>p \<in> set (seen gu). p \<notin> set (seen gp) \<longrightarrow> snd p < now0"
    and "\<forall>p \<in> set (seen gu). \<forall>(t, c) \<in> set calls. ticket_id enc sha t = fst p \<longrightarrow> expires_at t = snd p"
    and "\<forall>(t1, c1) \<in> set calls. \<forall>(t2, c2) \<in> set calls.
           ticket_id enc sha t1 = ticket_id enc sha t2 \<longrightarrow> expires_at t1 = expires_at t2"
  shows "\<exists>ds gp' gu'. run_calls (accept enc sha) gp calls = Inr (ds, gp') \<and>
           run_calls (accept_unpruned enc sha) gu calls = Inr (ds, gu')"
  using assms
proof (induction calls arbitrary: gp gu now0)
  case Nil
  then show ?case by simp
next
  case (Cons call calls)
  obtain t c where call: "call = (t, c)" by (cases call)
  let ?now = "c div 1000"
  let ?i = "ticket_id enc sha t"
  let ?e = "expires_at t"
  have sorted_rest: "sorted (map (\<lambda>(t, c). c div 1000) calls)"
    using Cons.prems(1) by simp
  have later: "\<forall>(t', c') \<in> set calls. ?now \<le> c' div 1000"
    using Cons.prems(1) call by auto
  have now0: "now0 \<le> ?now"
    using Cons.prems(2) call by simp
  have pair_rest: "\<forall>(t1, c1) \<in> set calls. \<forall>(t2, c2) \<in> set calls.
           ticket_id enc sha t1 = ticket_id enc sha t2 \<longrightarrow> expires_at t1 = expires_at t2"
    using Cons.prems(6) by auto
  have det_rest: "\<forall>p \<in> set (seen gu). \<forall>(t, c) \<in> set calls. ticket_id enc sha t = fst p \<longrightarrow> expires_at t = snd p"
    using Cons.prems(5) by auto
  have expired_now: "\<forall>p \<in> set (seen gu). p \<notin> set (seen gp) \<longrightarrow> snd p < ?now"
    using Cons.prems(4) now0 by fastforce
  show ?case
  proof (cases "?e < ?now")
    case True
    have p: "accept enc sha gp t c = Inr (False, gp)"
      and u: "accept_unpruned enc sha gu t c = Inr (False, gu)"
      using True by (simp_all add: accept_eq accept_unpruned_eq)
    obtain ds gp' gu' where "run_calls (accept enc sha) gp calls = Inr (ds, gp')"
      "run_calls (accept_unpruned enc sha) gu calls = Inr (ds, gu')"
      using Cons.IH [OF sorted_rest later Cons.prems(3) expired_now det_rest pair_rest] by blast
    then show ?thesis
      using p u call by auto
  next
    case live: False
    show ?thesis
    proof (cases "map_has (seen gu) ?i")
      case True
      then obtain e where e: "(?i, e) \<in> set (seen gu)"
        by (auto simp add: map_has_iff)
      have "?e = e"
        using Cons.prems(5) e call by fastforce
      then have "(?i, e) \<in> set (seen gp)"
        using Cons.prems(4) e live now0 by fastforce
      then have "map_has (seen gp) ?i"
        by (force simp add: map_has_iff)
      then have p: "accept enc sha gp t c = Inr (False, gp)"
        and u: "accept_unpruned enc sha gu t c = Inr (False, gu)"
        using True live by (simp_all add: accept_eq accept_unpruned_eq)
      obtain ds gp' gu' where "run_calls (accept enc sha) gp calls = Inr (ds, gp')"
        "run_calls (accept_unpruned enc sha) gu calls = Inr (ds, gu')"
        using Cons.IH [OF sorted_rest later Cons.prems(3) expired_now det_rest pair_rest] by blast
      then show ?thesis
        using p u call by auto
    next
      case False
      then have fresh_u: "?i \<notin> fst ` set (seen gu)"
        by (simp add: map_has_iff)
      then have fresh_p: "?i \<notin> fst ` set (seen gp)"
        using Cons.prems(3) by auto
      define gu1 where "gu1 = gu\<lparr> seen := AList.update ?i ?e (seen gu) \<rparr>"
      define gp0 where "gp0 = gp\<lparr> seen := AList.update ?i ?e (seen gp) \<rparr>"
      define gp1 where "gp1 = prune gp0 ?now"
      have su: "set (seen gu1) = insert (?i, ?e) (set (seen gu))"
        by (simp add: gu1_def set_update_fresh fresh_u)
      have sp0: "set (seen gp0) = insert (?i, ?e) (set (seen gp))"
        by (simp add: gp0_def set_update_fresh fresh_p)
      have p: "accept enc sha gp t c = Inr (True, gp1)"
        using live fresh_p by (simp add: accept_eq map_has_iff gp1_def gp0_def)
      have u: "accept_unpruned enc sha gu t c = Inr (True, gu1)"
        using live fresh_u by (simp add: accept_unpruned_eq map_has_iff gu1_def)
      have sub: "set (seen gp1) \<subseteq> set (seen gu1)"
        using seen_prune_subset [of gp0 ?now] sp0 su Cons.prems(3) by (auto simp add: gp1_def)
      have exp: "\<forall>p \<in> set (seen gu1). p \<notin> set (seen gp1) \<longrightarrow> snd p < ?now"
      proof (intro ballI impI)
        fix q assume q: "q \<in> set (seen gu1)" "q \<notin> set (seen gp1)"
        show "snd q < ?now"
        proof (cases "q \<in> set (seen gp0)")
          case True
          then show ?thesis
            using seen_prune_dropped [of q gp0 ?now] q(2) by (simp add: gp1_def)
        next
          case False
          then have "q \<in> set (seen gu)" "q \<notin> set (seen gp)"
            using q(1) su sp0 by auto
          then show ?thesis
            using expired_now by blast
        qed
      qed
      have det: "\<forall>p \<in> set (seen gu1). \<forall>(t, c) \<in> set calls. ticket_id enc sha t = fst p \<longrightarrow> expires_at t = snd p"
      proof (intro ballI)
        fix q x assume q: "q \<in> set (seen gu1)" and x: "x \<in> set calls"
        show "case x of (t, c) \<Rightarrow> ticket_id enc sha t = fst q \<longrightarrow> expires_at t = snd q"
        proof (cases "q = (?i, ?e)")
          case True
          then show ?thesis
            using Cons.prems(6) x call by fastforce
        next
          case False
          then have "q \<in> set (seen gu)"
            using q su by auto
          then show ?thesis
            using det_rest x by blast
        qed
      qed
      obtain ds gp' gu' where "run_calls (accept enc sha) gp1 calls = Inr (ds, gp')"
        "run_calls (accept_unpruned enc sha) gu1 calls = Inr (ds, gu')"
        using Cons.IH [OF sorted_rest later sub exp det pair_rest] by blast
      then show ?thesis
        using p u call by auto
    qed
  qed
qed

lemma accepted_count_Cons:
  "accepted_count ident x (call # calls) (d # ds) =
     (if d \<and> ident (fst call) = x then 1 else 0) + accepted_count ident x calls ds"
  by (simp add: accepted_count_def)

lemma unpruned_at_most_once:
  "run_calls (accept_unpruned enc sha) gu calls = Inr (ds, gu') \<Longrightarrow>
     length ds = length calls \<and>
     (\<forall>x. accepted_count (ticket_id enc sha) x calls ds \<le> (if map_has (seen gu) x then 0 else 1))"
proof (induction calls arbitrary: gu ds)
  case Nil
  then show ?case by (auto simp add: accepted_count_def)
next
  case (Cons call calls)
  obtain t c where call: "call = (t, c)" by (cases call)
  let ?i = "ticket_id enc sha t"
  obtain r where "accept_unpruned enc sha gu t c = Inr r"
    using accept_unpruned_eq [of enc sha gu t c] by blast
  then obtain d g1 where step: "accept_unpruned enc sha gu t c = Inr (d, g1)"
    by (cases r) simp
  obtain ds1 where rest: "run_calls (accept_unpruned enc sha) g1 calls = Inr (ds1, gu')"
    and ds: "ds = d # ds1"
    using Cons.prems step call by (auto split: sum.splits prod.splits)
  note IH = Cons.IH [OF rest]
  show ?case
  proof (cases d)
    case False
    then have "g1 = gu"
      using step by (auto simp add: accept_unpruned_eq split: if_splits)
    then show ?thesis
      using IH False ds call by (simp add: accepted_count_Cons)
  next
    case True
    then have fresh: "\<not> map_has (seen gu) ?i"
      and g1: "g1 = gu\<lparr> seen := AList.update ?i (expires_at t) (seen gu) \<rparr>"
      using step by (auto simp add: accept_unpruned_eq split: if_splits)
    have has: "map_has (seen g1) x \<longleftrightarrow> x = ?i \<or> map_has (seen gu) x" for x
      by (auto simp add: g1 map_has_def update_conv')
    have bound: "accepted_count (ticket_id enc sha) x calls ds1 \<le> (if map_has (seen g1) x then 0 else 1)" for x
      using IH by blast
    have "accepted_count (ticket_id enc sha) x (call # calls) ds
            \<le> (if map_has (seen gu) x then 0 else 1)" for x
    proof (cases "x = ?i")
      case True
      then show ?thesis
        using bound [of x] fresh has [of x] ds call by (simp add: accepted_count_Cons)
    next
      case False
      then show ?thesis
        using bound [of x] has [of x] ds call by (simp add: accepted_count_Cons)
    qed
    then show ?thesis
      using IH ds by simp
  qed
qed

text \<open>
  Claim C2. Take any sequence of calls on a new guard whose observed times do not
  decrease, between tickets whose identity determines their expiry (tickets with the
  same identity are the same ticket, up to a collision of the hash). The run never
  raises; for every identity at most one call is accepted; and the decisions are, call
  by call, those of the guard that never prunes.
\<close>

theorem replay_guard_at_most_once:
  assumes "sorted (map (\<lambda>(t, c). c div 1000) calls)"
    and "\<forall>(t1, c1) \<in> set calls. \<forall>(t2, c2) \<in> set calls.
           ticket_id enc sha t1 = ticket_id enc sha t2 \<longrightarrow> expires_at t1 = expires_at t2"
  shows "\<exists>ds g. run_calls (accept enc sha) new_ReplayGuard calls = Inr (ds, g) \<and>
           length ds = length calls \<and>
           (\<forall>x. accepted_count (ticket_id enc sha) x calls ds \<le> 1) \<and>
           (\<exists>g'. run_calls (accept_unpruned enc sha) new_ReplayGuard calls = Inr (ds, g'))"
proof -
  define now0 where "now0 = (if calls = [] then 0 else snd (hd calls) div 1000)"
  have lower: "\<forall>(t, c) \<in> set calls. now0 \<le> c div 1000"
  proof (cases calls)
    case Nil
    then show ?thesis by simp
  next
    case (Cons call rest)
    then show ?thesis
      using assms(1) by (cases call) (auto simp add: now0_def)
  qed
  obtain ds gp' gu' where p: "run_calls (accept enc sha) new_ReplayGuard calls = Inr (ds, gp')"
    and u: "run_calls (accept_unpruned enc sha) new_ReplayGuard calls = Inr (ds, gu')"
    using pruned_simulates_unpruned [OF assms(1) lower _ _ _ assms(2), of new_ReplayGuard new_ReplayGuard]
    by (auto simp add: new_ReplayGuard_def)
  have "length ds = length calls"
    and "\<forall>x. accepted_count (ticket_id enc sha) x calls ds \<le> 1"
    using unpruned_at_most_once [OF u] by (auto simp add: new_ReplayGuard_def map_has_def)
  then show ?thesis
    using p u by blast
qed


lemma demo_ticket_id: "ticket_id demo_encode demo_sha256 t = ''ticket:v1:'' @ byte_hex (of_int (nonce t))"
  by (simp add: ticket_id_def demo_encode_def demo_sha256_def ticket_value_def ticket_entries_def
      bytesToHex_def)

theorem replay_guard_at_most_once_witness:
  "\<exists>ds g. run_calls (accept demo_encode demo_sha256) new_ReplayGuard
       [(demo_ticket, 1000000), (demo_ticket2, 1000000), (demo_ticket, 1200000),
        (demo_ticket2, 1600000)] = Inr (ds, g) \<and>
     length ds = 4 \<and>
     (\<forall>x. accepted_count (ticket_id demo_encode demo_sha256) x
        [(demo_ticket, 1000000), (demo_ticket2, 1000000), (demo_ticket, 1200000),
         (demo_ticket2, 1600000)] ds \<le> 1) \<and>
     (\<exists>g'. run_calls (accept_unpruned demo_encode demo_sha256) new_ReplayGuard
        [(demo_ticket, 1000000), (demo_ticket2, 1000000), (demo_ticket, 1200000),
         (demo_ticket2, 1600000)] = Inr (ds, g'))"
proof -
  have ids: "ticket_id demo_encode demo_sha256 demo_ticket \<noteq> ticket_id demo_encode demo_sha256 demo_ticket2"
    by (simp add: demo_ticket_id demo_ticket_def demo_ticket2_def byte_hex_def hex_char_def)
  let ?calls = "[(demo_ticket, 1000000), (demo_ticket2, 1000000), (demo_ticket, 1200000),
    (demo_ticket2, 1600000 :: int)]"
  have len: "length ?calls = 4"
    by simp
  have times: "sorted (map (\<lambda>(t, c). c div 1000) ?calls)"
    by simp
  have expiry: "\<forall>(t1, c1) \<in> set ?calls. \<forall>(t2, c2) \<in> set ?calls.
      ticket_id demo_encode demo_sha256 t1 = ticket_id demo_encode demo_sha256 t2
        \<longrightarrow> expires_at t1 = expires_at t2"
    using ids by simp
  show ?thesis
    using replay_guard_at_most_once [OF times expiry] unfolding len .
qed

subsection \<open>Quorum\<close>

lemma bytes_equal_iff: "bytes_equal k p \<longleftrightarrow> k = p"
  unfolding bytes_equal_def list_all_iff by (auto intro: nth_equalityI)

lemma is_authorized_iff: "list_ex (\<lambda>k. bytes_equal k p) auth \<longleftrightarrow> p \<in> set auth"
  by (auto simp add: list_ex_iff bytes_equal_iff)

lemma hex_digit_value_hex_char_upt: "\<forall>n \<in> set [0..<16]. hex_digit_value (hex_char n) = n"
  by code_simp

lemma hex_digit_value_hex_char: "n < 16 \<Longrightarrow> hex_digit_value (hex_char n) = n"
  using hex_digit_value_hex_char_upt by simp

lemma parse_hex_pairs_byte_hex: "parse_hex_pairs (byte_hex b @ rest) = b # parse_hex_pairs rest"
proof -
  have "unat b div 16 < 16"
    using unsigned_less [of b, where ?'a = nat] by simp
  then show ?thesis
    by (simp add: byte_hex_def hex_digit_value_hex_char)
qed

lemma parse_hex_pairs_bytesToHex: "parse_hex_pairs (bytesToHex bs) = bs"
  by (induction bs) (simp_all add: bytesToHex_def parse_hex_pairs_byte_hex)

lemma bytesToHex_inj: "bytesToHex a = bytesToHex b \<longleftrightarrow> a = b"
  by (metis parse_hex_pairs_bytesToHex)

lemma counted_signers_Cons:
  "counted_signers V tb auth ((pk, sig) # rest) =
     (if pk \<in> set auth \<and> V sig tb pk then insert pk (counted_signers V tb auth rest)
      else counted_signers V tb auth rest)"
  by (simp add: counted_signers_def)

lemma finite_counted_signers: "finite (counted_signers V tb auth sigs)"
  by (simp add: counted_signers_def)

lemma quorum_loop_counts:
  assumes "\<forall>(pk, sig) \<in> set sigs. pk \<in> set auth \<longrightarrow> length sig = 64 \<and> length pk = 32"
  shows "quorum_loop V tb auth sigs n used =
           Inr (n + card {pk \<in> counted_signers V tb auth sigs. bytesToHex pk \<notin> used})"
  using assms
proof (induction sigs arbitrary: n used)
  case Nil
  then show ?case by (simp add: counted_signers_def)
next
  case (Cons p rest)
  obtain pk sig where p: "p = (pk, sig)" by (cases p)
  have IH: "quorum_loop V tb auth rest m u =
           Inr (m + card {k \<in> counted_signers V tb auth rest. bytesToHex k \<notin> u})" for m u
    using Cons by simp
  let ?C = "counted_signers V tb auth rest"
  show ?case
  proof (cases "pk \<in> set auth")
    case False
    then show ?thesis
      using IH by (simp add: p is_authorized_iff counted_signers_Cons)
  next
    case auth: True
    then have len: "length sig = 64" "length pk = 32"
      using Cons.prems p by auto
    have ver: "verify V tb (Bytes sig) (Bytes pk) = Inr (V sig tb pk)"
      using len by (simp add: verify_def normalizePublicKey_def)
    show ?thesis
    proof (cases "bytesToHex pk \<in> used")
      case True
      have "{k \<in> insert pk ?C. bytesToHex k \<notin> used} = {k \<in> ?C. bytesToHex k \<notin> used}"
        using True by auto
      then show ?thesis
        using IH True auth by (simp add: p is_authorized_iff counted_signers_Cons)
    next
      case unused: False
      show ?thesis
      proof (cases "V sig tb pk")
        case False
        then show ?thesis
          using IH unused auth ver by (simp add: p is_authorized_iff counted_signers_Cons)
      next
        case True
        have split: "{k \<in> insert pk ?C. bytesToHex k \<notin> used}
                = insert pk {k \<in> ?C. bytesToHex k \<notin> insert (bytesToHex pk) used}"
          using unused by (auto simp add: bytesToHex_inj)
        have "pk \<notin> {k \<in> ?C. bytesToHex k \<notin> insert (bytesToHex pk) used}"
          by simp
        moreover have "finite {k \<in> ?C. bytesToHex k \<notin> insert (bytesToHex pk) used}"
          using finite_counted_signers by simp
        ultimately have "card {k \<in> insert pk ?C. bytesToHex k \<notin> used}
                = Suc (card {k \<in> ?C. bytesToHex k \<notin> insert (bytesToHex pk) used})"
          unfolding split by (rule card_insert_disjoint [rotated])
        then show ?thesis
          using IH [of "n + 1" "insert (bytesToHex pk) used"] unused auth ver True
          by (simp add: p is_authorized_iff counted_signers_Cons)
      qed
    qed
  qed
qed

text \<open>
  Claim C1, as the code has it. When every submitted pair whose key is on the allowlist
  is well formed (a 64-byte signature, a 32-byte key), \<open>verifyQuorum\<close> returns whether
  the number of counted signers reaches the threshold, a counted signer being an
  authorized key with at least one submitted signature that verifies against the
  encoded ticket: a key submitted twice is one signer, a key off the allowlist is none,
  and threshold 0 with no signatures gives true.
\<close>

theorem verifyQuorum_counts_signers:
  assumes "\<forall>(pk, sig) \<in> set signatures. pk \<in> set authorized \<longrightarrow> length sig = 64 \<and> length pk = 32"
  shows "verifyQuorum enc V t signatures authorized threshold =
           Inr (int (card (counted_signers V (enc (ticket_value t)) authorized signatures)) \<ge> threshold) \<and>
         verifyQuorum enc V t [] authorized 0 = Inr True"
  using quorum_loop_counts [OF assms, of V "enc (ticket_value t)" 0 "{}"]
  by (simp add: verifyQuorum_def encodeCbor_ok ticket_value_defined)


lemma length_demo_sign: "length (demo_sign m k) = length k + 32"
  by (simp add: demo_sign_def demo_pad_def)

lemma demo_verify_demo_sign: "demo_verify (demo_sign m k) m pk \<longleftrightarrow> k = pk"
  by (simp add: demo_verify_def demo_sign_def)

theorem verifyQuorum_counts_signers_witness:
  "verifyQuorum demo_encode demo_verify demo_ticket
     [(replicate 32 1, demo_sign (demo_encode (ticket_value demo_ticket)) (replicate 32 1)),
      (replicate 32 2, demo_sign (demo_encode (ticket_value demo_ticket)) (replicate 32 2))]
     [replicate 32 1, replicate 32 2, replicate 32 3] 2 = Inr True \<and>
   verifyQuorum demo_encode demo_verify demo_ticket
     [(replicate 32 1, demo_sign (demo_encode (ticket_value demo_ticket)) (replicate 32 1)),
      (replicate 32 1, demo_sign (demo_encode (ticket_value demo_ticket)) (replicate 32 1))]
     [replicate 32 1, replicate 32 2, replicate 32 3] 2 = Inr False \<and>
   verifyQuorum demo_encode demo_verify demo_ticket
     [(replicate 32 1, demo_sign (demo_encode (ticket_value demo_ticket)) (replicate 32 1)),
      (replicate 32 4, demo_sign (demo_encode (ticket_value demo_ticket)) (replicate 32 4))]
     [replicate 32 1, replicate 32 2, replicate 32 3] 2 = Inr False \<and>
   verifyQuorum demo_encode demo_verify demo_ticket [] [replicate 32 1] 0 = Inr True"
  using
    verifyQuorum_counts_signers [of
      "[(replicate 32 1, demo_sign (demo_encode (ticket_value demo_ticket)) (replicate 32 1)),
        (replicate 32 2, demo_sign (demo_encode (ticket_value demo_ticket)) (replicate 32 2))]"
      "[replicate 32 1, replicate 32 2, replicate 32 3]" demo_encode demo_verify demo_ticket 2]
    verifyQuorum_counts_signers [of
      "[(replicate 32 1, demo_sign (demo_encode (ticket_value demo_ticket)) (replicate 32 1)),
        (replicate 32 1, demo_sign (demo_encode (ticket_value demo_ticket)) (replicate 32 1))]"
      "[replicate 32 1, replicate 32 2, replicate 32 3]" demo_encode demo_verify demo_ticket 2]
    verifyQuorum_counts_signers [of
      "[(replicate 32 1, demo_sign (demo_encode (ticket_value demo_ticket)) (replicate 32 1)),
        (replicate 32 4, demo_sign (demo_encode (ticket_value demo_ticket)) (replicate 32 4))]"
      "[replicate 32 1, replicate 32 2, replicate 32 3]" demo_encode demo_verify demo_ticket 2]
    verifyQuorum_counts_signers [of "[]" "[replicate 32 1]" demo_encode demo_verify demo_ticket 0]
  by (simp add: counted_signers_def length_demo_sign demo_verify_demo_sign)

text \<open>
  Claim C1 as it is written covers every list of pairs. With threshold 0 the count
  reaches the threshold whatever it is, yet a 63-byte signature submitted under an
  authorized key makes the call raise instead of returning true.
\<close>

theorem verifyQuorum_malformed_counterexample:
  "(0 :: int) \<le> int (card (counted_signers demo_verify (demo_encode (ticket_value demo_ticket))
       [replicate 32 1] [(replicate 32 1, replicate 63 0)])) \<and>
   verifyQuorum demo_encode demo_verify demo_ticket
     [(replicate 32 1, replicate 63 0)] [replicate 32 1] 0 = Inl InvalidSignatureLength"
  by (simp add: verifyQuorum_def encodeCbor_ok ticket_value_defined is_authorized_iff verify_def)

subsection \<open>The byte format: decoding what was encoded\<close>

lemma unat_byte: "n < 256 \<Longrightarrow> unat (of_nat n :: byte) = n"
  by (simp add: unat_of_nat)

lemma char_of_byte_of_char: "char_of_byte (byte_of_char c) = c"
  by (simp add: char_of_byte_def byte_of_char_def unat_byte)

lemma length_be_bytes: "length (be_bytes k n) = k"
  by (induction k arbitrary: n) simp_all

lemma be_bytes_numeral: "be_bytes (numeral k) n = be_bytes (pred_numeral k) (n div 256) @ [of_nat n]"
  by (simp only: numeral_eq_Suc [of k] be_bytes.simps)

text \<open>The byte format on the examples of RFC 8949, Appendix A.\<close>

lemma cbor_encode_examples:
  "cbor_encode (JInt 0) = [0x00]"
  "cbor_encode (JInt 23) = [0x17]"
  "cbor_encode (JInt 24) = [0x18, 0x18]"
  "cbor_encode (JInt 1000) = [0x19, 0x03, 0xe8]"
  "cbor_encode (JInt 1000000) = [0x1a, 0x00, 0x0f, 0x42, 0x40]"
  "cbor_encode (JInt (- 1)) = [0x20]"
  "cbor_encode (JInt (- 1000)) = [0x39, 0x03, 0xe7]"
  "cbor_encode (JStr ''IETF'') = [0x64, 0x49, 0x45, 0x54, 0x46]"
  "cbor_encode (JArr [JInt 1, JInt 2, JInt 3]) = [0x83, 0x01, 0x02, 0x03]"
  "cbor_encode (JObj [(''b'', JArr [JInt 2, JInt 3]), (''a'', JInt 1)])
     = [0xa2, 0x61, 0x61, 0x01, 0x61, 0x62, 0x82, 0x02, 0x03]"
  "cbor_encode (JFloat 0x3ff199999999999a)
     = [0xfb, 0x3f, 0xf1, 0x99, 0x99, 0x99, 0x99, 0x99, 0x9a]"
  by (simp_all add: cbor_head_def head_byte_def cbor_text_def byte_of_char_def be_bytes_numeral
      float_canonical_def is_nan_def)

text \<open>
  Infinity keeps its pattern; the negative zero is written as the positive zero, and a
  NaN with a payload or a sign as the one NaN.
\<close>

lemma float_canonical_examples:
  "float_canonical 0x7ff0000000000000 = 0x7ff0000000000000"
  "float_canonical 0xfff0000000000000 = 0xfff0000000000000"
  "float_canonical 0x8000000000000000 = 0"
  "float_canonical 0x7ff0000000000001 = 0x7ff8000000000000"
  "float_canonical 0xfff8000000000abc = 0x7ff8000000000000"
  "float_canonical 0x3feccccccccccccd = 0x3feccccccccccccd"
  by (simp_all add: float_canonical_def is_nan_def)

lemma float_canonical_idem: "float_canonical (float_canonical f) = float_canonical f"
  by (simp add: float_canonical_def is_nan_def)

lemma float_canonical_eq_iff:
  "float_canonical f = float_canonical g \<longleftrightarrow>
     f = g \<or> (is_nan f \<and> is_nan g) \<or> (unat f mod 2 ^ 63 = 0 \<and> unat g mod 2 ^ 63 = 0)"
proof -
  have nan: "is_nan (0x7ff8000000000000 :: float64)" and zero: "\<not> is_nan (0 :: float64)"
    and other: "unat (0x7ff8000000000000 :: float64) mod 2 ^ 63 \<noteq> 0"
    by (simp_all add: is_nan_def)
  have nz: "\<not> is_nan h" if "unat h mod 2 ^ 63 = 0" for h :: float64
    using that by (simp add: is_nan_def)
  show ?thesis
    using nan zero other nz [of f] nz [of g]
    by (auto simp add: float_canonical_def)
qed

lemma be_value_snoc: "be_value (bs @ [b]) = be_value bs * 256 + unat b"
  by (simp add: be_value_def)

lemma be_value_be_bytes: "n < 256 ^ k \<Longrightarrow> be_value (be_bytes k n) = n"
proof (induction k arbitrary: n)
  case 0
  then show ?case by (simp add: be_value_def)
next
  case (Suc k)
  have "n div 256 < 256 ^ k"
    using Suc.prems by (simp add: less_mult_imp_div_less mult.commute)
  then have "be_value (be_bytes k (n div 256)) = n div 256"
    by (rule Suc.IH)
  then show ?case
    by (simp add: be_value_snoc unat_of_nat)
qed

lemma take_be_be_bytes: "n < 256 ^ k \<Longrightarrow> take_be k (be_bytes k n @ rest) = Some (n, rest)"
  by (simp add: take_be_def length_be_bytes be_value_be_bytes)

lemma unat_head_byte: "major < 8 \<Longrightarrow> info < 32 \<Longrightarrow> unat (head_byte major info) = major * 32 + info"
  unfolding head_byte_def by (rule unat_byte) simp

lemma head_byte_major: "major < 8 \<Longrightarrow> info < 32 \<Longrightarrow> unat (head_byte major info) div 32 = major"
  by (simp add: unat_head_byte)

lemma head_byte_info: "major < 8 \<Longrightarrow> info < 32 \<Longrightarrow> unat (head_byte major info) mod 32 = info"
  by (simp add: unat_head_byte)

lemma cbor_head_decodes:
  assumes "major < 8" and "n < 2 ^ 64"
  shows "\<exists>b bs. cbor_head major n = b # bs \<and> unat b div 32 = major \<and>
           (\<forall>rest. cbor_argument (unat b mod 32) (bs @ rest) = Some (n, rest))"
proof -
  consider "n < 24" | "24 \<le> n" "n < 2 ^ 8" | "2 ^ 8 \<le> n" "n < 2 ^ 16"
    | "2 ^ 16 \<le> n" "n < 2 ^ 32" | "2 ^ 32 \<le> n"
    by linarith
  then show ?thesis
  proof cases
    case 1
    then show ?thesis
      using assms(1) by (simp add: cbor_head_def head_byte_major head_byte_info cbor_argument_def)
  next
    case 2
    then show ?thesis
      using assms(1) take_be_be_bytes [of n 1]
      by (simp add: cbor_head_def head_byte_major head_byte_info cbor_argument_def)
  next
    case 3
    then show ?thesis
      using assms(1) take_be_be_bytes [of n 2]
      by (simp add: cbor_head_def head_byte_major head_byte_info cbor_argument_def)
  next
    case 4
    then show ?thesis
      using assms(1) take_be_be_bytes [of n 4]
      by (simp add: cbor_head_def head_byte_major head_byte_info cbor_argument_def)
  next
    case 5
    then show ?thesis
      using assms take_be_be_bytes [of n 8]
      by (simp add: cbor_head_def head_byte_major head_byte_info cbor_argument_def)
  qed
qed

lemma decode_item_head:
  assumes "major < 7" and "n < 2 ^ 64"
  shows "decode_item (Suc fuel) (cbor_head major n @ rest) =
     (if major = 0 then Some (JInt (int n), rest)
      else if major = 1 then Some (JInt (- 1 - int n), rest)
      else if major = 3 then
        (if length rest < n then None
         else Some (JStr (map char_of_byte (take n rest)), drop n rest))
      else if major = 4 then
        (case decode_items fuel n rest of
           None \<Rightarrow> None
         | Some (xs, rest') \<Rightarrow> Some (JArr xs, rest'))
      else if major = 5 then
        (case decode_entries fuel n rest of
           None \<Rightarrow> None
         | Some (kvs, rest') \<Rightarrow> Some (JObj kvs, rest'))
      else None)"
proof -
  obtain b bs where head: "cbor_head major n = b # bs" "unat b div 32 = major"
    and arg: "cbor_argument (unat b mod 32) (bs @ rest) = Some (n, rest)"
    using cbor_head_decodes [of major n] assms by auto
  show ?thesis
    using assms(1) by (simp add: head arg Let_def)
qed

lemma decode_text: "length s < 2 ^ 64 \<Longrightarrow> decode_item (Suc fuel) (cbor_text s @ rest) = Some (JStr s, rest)"
  by (simp add: cbor_text_def decode_item_head comp_def char_of_byte_of_char)

lemma depth_pos: "0 < depth v"
  by (cases v) simp_all

lemma depth_element: "x \<in> set xs \<Longrightarrow> depth x \<le> foldr max (map depth xs) 0"
  by (induction xs) auto

lemma depth_entry: "kv \<in> set kvs \<Longrightarrow> depth (snd kv) \<le> foldr max (map (\<lambda>kv. depth (snd kv)) kvs) 0"
  by (induction kvs) auto

lemma decode_items_encoded:
  assumes "\<And>x fuel' rest'. x \<in> set xs \<Longrightarrow> depth x \<le> fuel' \<Longrightarrow>
             decode_item fuel' (cbor_encode x @ rest') = Some (canonical x, rest')"
    and "\<forall>x \<in> set xs. depth x \<le> fuel"
  shows "decode_items fuel (length xs) (concat (map cbor_encode xs) @ rest) = Some (map canonical xs, rest)"
  using assms by (induction xs) simp_all

lemma decode_entries_encoded:
  assumes "\<And>k v fuel' rest'. (k, v) \<in> set kvs \<Longrightarrow> depth v \<le> fuel' \<Longrightarrow>
             decode_item fuel' (cbor_encode v @ rest') = Some (canonical v, rest')"
    and "\<forall>kv \<in> set kvs. depth (snd kv) \<le> fuel \<and> length (fst kv) < 2 ^ 64"
    and "0 < fuel"
  shows "decode_entries fuel (length kvs)
           (concat (map (\<lambda>(k, v). cbor_text k @ cbor_encode v) kvs) @ rest)
         = Some (map (\<lambda>(k, v). (k, canonical v)) kvs, rest)"
  using assms
proof (induction kvs)
  case Nil
  then show ?case by simp
next
  case (Cons kv kvs)
  obtain k v where kv: "kv = (k, v)" by (cases kv)
  obtain f where f: "fuel = Suc f"
    using Cons.prems(3) by (cases fuel) simp_all
  have key: "decode_item fuel (cbor_text k @ more) = Some (JStr k, more)" for more
    using Cons.prems(2) kv by (simp add: f decode_text)
  have val: "decode_item fuel (cbor_encode v @ more) = Some (canonical v, more)" for more
    using Cons.prems(1) [of k v fuel more] Cons.prems(2) kv by simp
  have "decode_entries fuel (length kvs)
           (concat (map (\<lambda>(k, v). cbor_text k @ cbor_encode v) kvs) @ rest)
         = Some (map (\<lambda>(k, v). (k, canonical v)) kvs, rest)"
  proof (rule Cons.IH)
    show "decode_item fuel' (cbor_encode v' @ rest') = Some (canonical v', rest')"
      if "(k', v') \<in> set kvs" "depth v' \<le> fuel'" for k' v' fuel' rest'
      using Cons.prems(1) [of k' v' fuel' rest'] that by simp
    show "\<forall>kv \<in> set kvs. depth (snd kv) \<le> fuel \<and> length (fst kv) < 2 ^ 64"
      using Cons.prems(2) by simp
    show "0 < fuel"
      by (rule Cons.prems(3))
  qed
  then show ?case
    by (simp add: kv key val)
qed

lemma insort_key_map_entry:
  "insort_key fst (k, g v) (map (\<lambda>(k, v). (k, g v)) xs) = map (\<lambda>(k, v). (k, g v)) (insort_key fst (k, v) xs)"
  by (induction xs) auto

lemma sort_key_map_entry:
  "sort_key fst (map (\<lambda>(k, v). (k, g v)) kvs) = map (\<lambda>(k, v). (k, g v)) (sort_key fst kvs)"
  by (induction kvs) (auto simp add: insort_key_map_entry)

lemma entries_bytes:
  "map (\<lambda>(k, e). cbor_text k @ e) (sort_key fst (map (\<lambda>(k, v). (k, g v)) kvs))
     = map (\<lambda>(k, v). cbor_text k @ g v) (sort_key fst kvs)"
  unfolding sort_key_map_entry by (simp add: comp_def case_prod_unfold)

lemma decode_encode_item:
  "structurally_valid v \<Longrightarrow> depth v \<le> fuel \<Longrightarrow>
     decode_item fuel (cbor_encode v @ rest) = Some (canonical v, rest)"
proof (induction v arbitrary: fuel rest)
  case JUndefined
  then obtain f where "fuel = Suc f" by (cases fuel) simp_all
  then show ?case by simp
next
  case JNull
  then obtain f where "fuel = Suc f" by (cases fuel) simp_all
  then show ?case by simp
next
  case (JBool b)
  then obtain f where "fuel = Suc f" by (cases fuel) simp_all
  then show ?case by simp
next
  case (JInt n)
  then obtain f where f: "fuel = Suc f" by (cases fuel) simp_all
  show ?case
  proof (cases "0 \<le> n")
    case True
    then have "nat n < 2 ^ 64"
      using JInt.prems(1) by (simp add: nat_less_iff)
    then show ?thesis
      using True by (simp add: f decode_item_head)
  next
    case False
    then have "nat (- 1 - n) < 2 ^ 64"
      using JInt.prems(1) by (simp add: nat_less_iff)
    then show ?thesis
      using False by (simp add: f decode_item_head)
  qed
next
  case (JFloat w)
  then obtain f where f: "fuel = Suc f" by (cases fuel) simp_all
  let ?c = "float_canonical w"
  have "unat ?c < 256 ^ 8"
    using unsigned_less [of ?c, where ?'a = nat] by simp
  then have "take_be 8 (be_bytes 8 (unat ?c) @ rest) = Some (unat ?c, rest)"
    by (rule take_be_be_bytes)
  then show ?case
    by (simp add: f)
next
  case (JStr s)
  then obtain f where "fuel = Suc f" by (cases fuel) simp_all
  then show ?case
    using JStr.prems(1) by (simp add: decode_text)
next
  case (JArr xs)
  then obtain f where f: "fuel = Suc f" by (cases fuel) simp_all
  have deep: "\<forall>x \<in> set xs. depth x \<le> f"
    using JArr.prems(2) f depth_element [of _ xs] by fastforce
  have "decode_items f (length xs) (concat (map cbor_encode xs) @ rest) = Some (map canonical xs, rest)"
    using JArr.IH JArr.prems(1) by (intro decode_items_encoded deep) simp_all
  then show ?case
    using JArr.prems(1) by (simp add: f decode_item_head)
next
  case (JObj kvs)
  then obtain f where f: "fuel = Suc f" by (cases fuel) simp_all
  let ?s = "sort_key fst kvs"
  have deep: "\<forall>kv \<in> set ?s. depth (snd kv) \<le> f \<and> length (fst kv) < 2 ^ 64"
    using JObj.prems f depth_entry [of _ kvs] by fastforce
  have keep: "decode_item fuel' (cbor_encode v @ rest') = Some (canonical v, rest')"
    if "(k, v) \<in> set ?s" "depth v \<le> fuel'" for k v fuel' rest'
  proof -
    have "(k, v) \<in> set kvs"
      using that(1) by simp
    moreover have "structurally_valid v"
      using JObj.prems(1) \<open>(k, v) \<in> set kvs\<close> by fastforce
    moreover have "v \<in> Basic_BNFs.snds (k, v)"
      by simp
    ultimately show ?thesis
      using JObj.IH [of "(k, v)" v fuel' rest'] that(2) by blast
  qed
  have body: "decode_entries f (length ?s)
           (concat (map (\<lambda>(k, v). cbor_text k @ cbor_encode v) ?s) @ rest)
         = Some (map (\<lambda>(k, v). (k, canonical v)) ?s, rest)"
    if "0 < f"
    using keep deep that by (intro decode_entries_encoded) simp_all
  have empty: "decode_entries f (length ?s)
           (concat (map (\<lambda>(k, v). cbor_text k @ cbor_encode v) ?s) @ rest)
         = Some (map (\<lambda>(k, v). (k, canonical v)) ?s, rest)"
    if "kvs = []"
    using that by simp
  have pos: "0 < f" if nonempty: "kvs \<noteq> []"
  proof -
    obtain kv where "kv \<in> set kvs"
      using nonempty by (cases kvs) auto
    then have "kv \<in> set ?s"
      by simp
    then show ?thesis
      using deep depth_pos [of "snd kv"] by fastforce
  qed
  have entries: "decode_entries f (length kvs)
           (concat (map (\<lambda>(k, v). cbor_text k @ cbor_encode v) ?s) @ rest)
         = Some (map (\<lambda>(k, v). (k, canonical v)) ?s, rest)"
    using body empty pos by (cases "kvs = []") simp_all
  have enc: "cbor_encode (JObj kvs) =
      cbor_head 5 (length kvs) @ concat (map (\<lambda>(k, v). cbor_text k @ cbor_encode v) ?s)"
    by (simp only: cbor_encode.simps entries_bytes)
  have can: "canonical (JObj kvs) = JObj (map (\<lambda>(k, v). (k, canonical v)) ?s)"
    by (simp only: canonical.simps sort_key_map_entry)
  have "length kvs < 2 ^ 64"
    using JObj.prems(1) by simp
  then have "decode_item (Suc f) (cbor_head 5 (length kvs) @
        (concat (map (\<lambda>(k, v). cbor_text k @ cbor_encode v) ?s) @ rest))
      = Some (JObj (map (\<lambda>(k, v). (k, canonical v)) ?s), rest)"
    by (simp only: decode_item_head entries) simp
  then show ?case
    by (simp only: enc can f append_assoc)
qed

lemma length_cbor_head: "Suc 0 \<le> length (cbor_head major n)"
  by (simp add: cbor_head_def)

lemma foldr_max_le: "(\<forall>x \<in> set xs. g x \<le> (bound :: nat)) \<Longrightarrow> foldr max (map g xs) 0 \<le> bound"
  by (induction xs) simp_all

lemma length_part_le_concat: "x \<in> set ys \<Longrightarrow> length (g x) \<le> length (concat (map g ys))"
  by (induction ys) auto

lemma depth_le_length: "depth v \<le> length (cbor_encode v)"
proof (induction v)
  case (JArr xs)
  have "depth x \<le> length (concat (map cbor_encode xs))" if "x \<in> set xs" for x
    using JArr.IH [OF that] length_part_le_concat [OF that, of cbor_encode] by simp
  then have "foldr max (map depth xs) 0 \<le> length (concat (map cbor_encode xs))"
    by (intro foldr_max_le) simp
  then show ?case
    using length_cbor_head [of 4 "length xs"]
    unfolding cbor_encode.simps depth.simps length_append by linarith
next
  case (JObj kvs)
  let ?g = "\<lambda>(k, v). cbor_text k @ cbor_encode v"
  let ?s = "sort_key fst kvs"
  have "depth (snd kv) \<le> length (concat (map ?g ?s))" if "kv \<in> set kvs" for kv
  proof -
    obtain k v where kv: "kv = (k, v)" by (cases kv)
    have "depth v \<le> length (cbor_encode v)"
      using JObj.IH [of kv v] that kv by simp
    moreover have "length (?g kv) \<le> length (concat (map ?g ?s))"
      using that by (intro length_part_le_concat) simp
    ultimately show ?thesis
      using kv by simp
  qed
  then have "foldr max (map (\<lambda>kv. depth (snd kv)) kvs) 0 \<le> length (concat (map ?g ?s))"
    by (intro foldr_max_le) simp
  moreover have "cbor_encode (JObj kvs) = cbor_head 5 (length kvs) @ concat (map ?g ?s)"
    by (simp only: cbor_encode.simps entries_bytes)
  ultimately show ?case
    using length_cbor_head [of 5 "length kvs"]
    unfolding depth.simps by (simp only: length_append)
next
  case (JInt n)
  then show ?case
    using length_cbor_head [of 0 "nat n"] length_cbor_head [of 1 "nat (- 1 - n)"] by simp
next
  case (JStr s)
  then show ?case
    using length_cbor_head [of 3 "length s"] by (simp add: cbor_text_def)
qed simp_all

lemma cbor_decode_encode: "structurally_valid v \<Longrightarrow> cbor_decode (cbor_encode v) = Inr (canonical v)"
  using decode_encode_item [of v "length (cbor_encode v)" "[]"] depth_le_length [of v]
  by (simp add: cbor_decode_def)

lemma sort_key_sorted_again: "sort_key f (sort_key f xs) = sort_key f xs"
  by (simp add: sort_key_id_if_sorted)

lemma sort_entries_idem: "sort_entries (sort_entries v) = sort_entries v"
proof (induction v)
  case (JObj kvs)
  have "(case (case kv of (k, v) \<Rightarrow> (k, sort_entries v)) of (k, v) \<Rightarrow> (k, sort_entries v))
          = (case kv of (k, v) \<Rightarrow> (k, sort_entries v))" if "kv \<in> set kvs" for kv
    using JObj.IH [of kv "snd kv"] that by (cases kv) simp
  then have "map (\<lambda>(k, v). (k, sort_entries v)) (map (\<lambda>(k, v). (k, sort_entries v)) kvs)
          = map (\<lambda>(k, v). (k, sort_entries v)) kvs"
    by (simp only: map_map comp_def cong: map_cong)
  then have "sort_key fst (map (\<lambda>(k, v). (k, sort_entries v)) (sort_key fst (map (\<lambda>(k, v). (k, sort_entries v)) kvs)))
          = sort_key fst (map (\<lambda>(k, v). (k, sort_entries v)) kvs)"
    by (simp only: sort_key_map_entry [symmetric] sort_key_sorted_again)
  then show ?case
    by (simp only: sort_entries.simps)
qed (simp_all add: map_idI)

lemma js_equal_sort_entries: "js_equal (sort_entries v) v"
  by (simp add: js_equal_def sort_entries_idem)

lemma canonical_sort_entries: "floats_canonical v \<Longrightarrow> canonical v = sort_entries v"
proof (induction v)
  case (JArr xs)
  then have "map canonical xs = map sort_entries xs"
    by (intro map_cong) simp_all
  then show ?case
    by simp
next
  case (JObj kvs)
  have "(case kv of (k, v) \<Rightarrow> (k, canonical v)) = (case kv of (k, v) \<Rightarrow> (k, sort_entries v))"
    if "kv \<in> set kvs" for kv
  proof -
    obtain k v where kv: "kv = (k, v)" by (cases kv)
    have "floats_canonical v"
      using JObj.prems that kv by auto
    then have "canonical v = sort_entries v"
      using JObj.IH [of kv v] that kv by simp
    then show ?thesis
      using kv by simp
  qed
  then have "map (\<lambda>(k, v). (k, canonical v)) kvs = map (\<lambda>(k, v). (k, sort_entries v)) kvs"
    by (intro map_cong) simp_all
  then show ?case
    by (simp only: canonical.simps sort_entries.simps)
qed simp_all

lemma sort_key_permuted:
  assumes "mset kvs = mset kvs'" and "distinct (map fst kvs)"
  shows "sort_key fst kvs = sort_key fst kvs'"
proof (rule sort_key_inj_key_eq)
  show "mset kvs = mset (sort_key fst kvs')"
    using assms(1) by simp
  show "inj_on fst (set kvs)"
    using assms(2) by (simp add: distinct_map)
  show "sorted (map fst (sort_key fst kvs'))"
    by simp
qed

lemma cbor_encode_permuted:
  assumes "mset kvs = mset kvs'" and "distinct (map fst kvs)"
  shows "cbor_encode (JObj kvs) = cbor_encode (JObj kvs')"
proof -
  have "length kvs = length kvs'"
    using assms(1) by (rule mset_eq_length)
  then show ?thesis
    by (simp only: cbor_encode.simps entries_bytes sort_key_permuted [OF assms])
qed

lemma has_undefined_permuted:
  assumes "mset kvs = mset kvs'"
  shows "has_undefined (JObj kvs) = has_undefined (JObj kvs')"
proof -
  have "set kvs = set kvs'"
    using assms by (rule mset_eq_setD)
  then show ?thesis
    by simp
qed

lemma hex_char_lower: "hex_char n \<in> set ''0123456789abcdef''"
proof -
  have "n mod 16 < length ''0123456789abcdef''"
    by simp
  then show ?thesis
    unfolding hex_char_def by (rule nth_mem)
qed

lemma bytesToHex_lower: "c \<in> set (bytesToHex bs) \<Longrightarrow> c \<in> set ''0123456789abcdef''"
proof (induction bs)
  case Nil
  then show ?case by (simp add: bytesToHex_def)
next
  case (Cons b bs)
  have "bytesToHex (b # bs) = hex_char (unat b div 16) # hex_char (unat b mod 16) # bytesToHex bs"
    by (simp add: bytesToHex_def byte_hex_def)
  then consider "c = hex_char (unat b div 16)" | "c = hex_char (unat b mod 16)"
    | "c \<in> set (bytesToHex bs)"
    using Cons.prems by auto
  then show ?case
  proof cases
    case 1
    then show ?thesis by (simp only: hex_char_lower)
  next
    case 2
    then show ?thesis by (simp only: hex_char_lower)
  next
    case 3
    then show ?thesis by (rule Cons.IH)
  qed
qed

lemma length_bytesToHex: "length (bytesToHex bs) = 2 * length bs"
  by (induction bs) (simp_all add: bytesToHex_def byte_hex_def)


subsection \<open>The nesting bound of the decoder\<close>

text \<open>
  Every item takes at least one byte, so a bound equal to the length of the input is
  never the reason for a failure: a larger bound gives the same result.
\<close>

lemma take_be_shorter: "take_be k bs = Some (n, rest) \<Longrightarrow> length rest \<le> length bs"
  by (auto simp add: take_be_def split: if_splits)

lemma cbor_argument_shorter: "cbor_argument info bs = Some (n, rest) \<Longrightarrow> length rest \<le> length bs"
  by (auto simp add: cbor_argument_def take_be_shorter split: if_splits)

lemma decode_shorter:
  "decode_item fuel bs = Some (v, rest) \<Longrightarrow> length rest < length bs"
  "decode_items fuel n bs = Some (xs, rest) \<Longrightarrow> length rest \<le> length bs"
  "decode_entries fuel n bs = Some (kvs, rest) \<Longrightarrow> length rest \<le> length bs"
proof (induction fuel bs and fuel n bs and fuel n bs arbitrary: v rest and xs rest and kvs rest
    rule: decode_item_decode_items_decode_entries.induct)
  case (3 fuel b bs)
  show ?case
  proof (cases "unat b div 32 = 7")
    case True
    then show ?thesis
      using "3.prems" take_be_shorter [of 8 bs]
      by (auto simp add: Let_def split: if_splits option.splits)
  next
    case False
    then obtain n r where arg: "cbor_argument (unat b mod 32) bs = Some (n, r)"
      using "3.prems" by (auto simp add: Let_def split: option.splits)
    have r: "length r \<le> length bs"
      using arg by (rule cbor_argument_shorter)
    have items: "length rest' \<le> length r"
      if "unat b div 32 = 4" "decode_items fuel n r = Some (xs, rest')" for xs rest'
      using "3.IH"(1) [of "unat b div 32" "unat b mod 32" "(n, r)" n r xs rest'] arg that by simp
    have entries: "length rest' \<le> length r"
      if "unat b div 32 = 5" "decode_entries fuel n r = Some (kvs, rest')" for kvs rest'
      using "3.IH"(2) [of "unat b div 32" "unat b mod 32" "(n, r)" n r kvs rest'] arg that by simp
    show ?thesis
      using "3.prems" False arg r items entries
      by (auto simp add: Let_def split: if_splits option.splits)
  qed
next
  case (5 fuel n bs)
  then show ?case
    by (fastforce split: option.splits prod.splits)
next
  case (7 fuel n bs)
  then show ?case
    by (fastforce split: option.splits prod.splits jsvalue.splits)
qed simp_all


lemma decode_fuel:
  "length bs \<le> fuel \<Longrightarrow> decode_item (fuel + k) bs = decode_item fuel bs"
  "length bs \<le> fuel \<Longrightarrow> decode_items (fuel + k) n bs = decode_items fuel n bs"
  "length bs \<le> fuel \<Longrightarrow> decode_entries (fuel + k) n bs = decode_entries fuel n bs"
proof (induction fuel bs and fuel n bs and fuel n bs
    rule: decode_item_decode_items_decode_entries.induct)
  case (1 bs)
  then show ?case by (cases k) simp_all
next
  case (2 fuel)
  then show ?case by simp
next
  case (3 fuel b bs)
  have fuel: "length bs \<le> fuel"
    using "3.prems" by simp
  show ?case
  proof (cases "cbor_argument (unat b mod 32) bs")
    case None
    then show ?thesis by (simp add: Let_def)
  next
    case (Some a)
    obtain n r where a: "a = (n, r)" by (cases a)
    have r: "length r \<le> fuel"
      using cbor_argument_shorter [of "unat b mod 32" bs n r] Some a fuel by simp
    have items: "decode_items (fuel + k) n r = decode_items fuel n r" if "unat b div 32 = 4"
      using "3.IH"(1) [of "unat b div 32" "unat b mod 32" "(n, r)" n r] Some a r that by simp
    have entries: "decode_entries (fuel + k) n r = decode_entries fuel n r" if "unat b div 32 = 5"
      using "3.IH"(2) [of "unat b div 32" "unat b mod 32" "(n, r)" n r] Some a r that by simp
    show ?thesis
      using Some a items entries by (simp add: Let_def)
  qed
next
  case (4 fuel bs)
  then show ?case by simp
next
  case (5 fuel n bs)
  have head: "decode_item (fuel + k) bs = decode_item fuel bs"
    using "5.IH"(1) "5.prems" by simp
  show ?case
  proof (cases "decode_item fuel bs")
    case None
    then show ?thesis by (simp add: head)
  next
    case (Some a)
    obtain x r where a: "a = (x, r)" by (cases a)
    have "length r \<le> fuel"
      using decode_shorter(1) [of fuel bs x r] Some a "5.prems" by simp
    then have "decode_items (fuel + k) n r = decode_items fuel n r"
      using "5.IH"(2) [of "(x, r)" x r] Some a by simp
    then show ?thesis
      by (simp add: head Some a)
  qed
next
  case (6 fuel bs)
  then show ?case by simp
next
  case (7 fuel n bs)
  have head: "decode_item (fuel + k) bs = decode_item fuel bs"
    using "7.IH"(1) "7.prems" by simp
  show ?case
  proof (cases "decode_item fuel bs")
    case None
    then show ?thesis by (simp add: head)
  next
    case (Some a)
    obtain x r where a: "a = (x, r)" by (cases a)
    have r: "length r \<le> fuel"
      using decode_shorter(1) [of fuel bs x r] Some a "7.prems" by simp
    show ?thesis
    proof (cases x)
      case (JStr key)
      have val: "decode_item (fuel + k) r = decode_item fuel r"
        using "7.IH"(2) [of "(x, r)" x r key] Some a JStr r by simp
      show ?thesis
      proof (cases "decode_item fuel r")
        case None
        then show ?thesis by (simp add: head Some a JStr val)
      next
        case inner: (Some a')
        obtain v r' where a': "a' = (v, r')" by (cases a')
        have "length r' \<le> fuel"
          using decode_shorter(1) [of fuel r v r'] inner a' r by simp
        then have "decode_entries (fuel + k) n r' = decode_entries fuel n r'"
          using "7.IH"(3) [of "(x, r)" x r key "(v, r')" v r'] Some a JStr inner a' by simp
        then show ?thesis
          by (simp add: head Some a JStr val inner a')
      qed
    qed (simp_all add: head Some a)
  qed
qed

lemma cbor_decode_fuel:
  "cbor_decode bs =
     (case decode_item (length bs + k) bs of None \<Rightarrow> Inl DecodingError | Some (v, rest) \<Rightarrow> Inr v)"
  by (simp add: cbor_decode_def decode_fuel(1))

subsection \<open>Round trip\<close>

text \<open>
  Claim C3, for the byte format modelled above, as that format has it. For every
  structurally valid value without an absent marker, \<open>encodeCbor\<close> returns bytes and
  \<open>decodeCbor\<close> returns a value on those bytes (the nesting bound is enough): the
  canonical form of \<open>v\<close>, which is \<open>v\<close> with the entries of its mappings ordered and
  each non-integral number in its single bit pattern. When the numbers of \<open>v\<close> are in
  that pattern already, the value returned equals \<open>v\<close>, the order of the entries of
  mappings not counting.
\<close>

theorem decode_encode_roundtrip:
  assumes "structurally_valid v" and "\<not> has_undefined v"
  shows "\<exists>bs. encodeCbor cbor_encode v = Inr bs \<and>
           decodeCbor cbor_decode bs = Inr (canonical v) \<and>
           (floats_canonical v \<longrightarrow> canonical v = sort_entries v \<and> js_equal (canonical v) v)"
  using assms
  by (simp add: encodeCbor_ok decodeCbor_def cbor_decode_encode canonical_sort_entries
      js_equal_sort_entries)

theorem decode_encode_roundtrip_witness:
  "\<exists>bs. encodeCbor cbor_encode
          (JObj [(''z'', JInt (- 500)), (''a'', JArr [JFloat 0x3feccccccccccccd, JStr ''hi'', JNull])])
          = Inr bs \<and>
        decodeCbor cbor_decode bs
          = Inr (JObj [(''a'', JArr [JFloat 0x3feccccccccccccd, JStr ''hi'', JNull]), (''z'', JInt (- 500))]) \<and>
        js_equal (JObj [(''a'', JArr [JFloat 0x3feccccccccccccd, JStr ''hi'', JNull]), (''z'', JInt (- 500))])
          (JObj [(''z'', JInt (- 500)), (''a'', JArr [JFloat 0x3feccccccccccccd, JStr ''hi'', JNull])])"
proof -
  let ?v = "JObj [(''z'', JInt (- 500)), (''a'', JArr [JFloat 0x3feccccccccccccd, JStr ''hi'', JNull])]"
  have valid: "structurally_valid ?v" and defined: "\<not> has_undefined ?v"
    by simp_all
  have floats: "floats_canonical ?v"
    by (simp add: float_canonical_examples)
  have canon: "canonical ?v
      = JObj [(''a'', JArr [JFloat 0x3feccccccccccccd, JStr ''hi'', JNull]), (''z'', JInt (- 500))]"
    by (simp add: float_canonical_examples)
  show ?thesis
    using decode_encode_roundtrip [OF valid defined] floats unfolding canon by blast
qed

text \<open>
  Claim C3 as it is written covers every value that is encoded. A mapping with a field
  that is the negative zero is encoded, and decoding gives the positive zero in its
  place, which is another bit pattern: the value returned is not the value encoded.
\<close>

theorem decode_encode_negative_zero_counterexample:
  "structurally_valid (JObj [(''confidence'', JFloat 0x8000000000000000)]) \<and>
   \<not> has_undefined (JObj [(''confidence'', JFloat 0x8000000000000000)]) \<and>
   encodeCbor cbor_encode (JObj [(''confidence'', JFloat 0x8000000000000000)])
     = Inr (cbor_encode (JObj [(''confidence'', JFloat 0x8000000000000000)])) \<and>
   decodeCbor cbor_decode (cbor_encode (JObj [(''confidence'', JFloat 0x8000000000000000)]))
     = Inr (JObj [(''confidence'', JFloat 0)]) \<and>
   \<not> js_equal (JObj [(''confidence'', JFloat 0)]) (JObj [(''confidence'', JFloat 0x8000000000000000)])"
proof -
  let ?v = "JObj [(''confidence'', JFloat 0x8000000000000000)]"
  have valid: "structurally_valid ?v" and defined: "\<not> has_undefined ?v"
    by simp_all
  have canon: "canonical ?v = JObj [(''confidence'', JFloat 0)]"
    by (simp add: float_canonical_examples)
  have "cbor_decode (cbor_encode ?v) = Inr (JObj [(''confidence'', JFloat 0)])"
    using cbor_decode_encode [OF valid] by (simp only: canon)
  moreover have "encodeCbor cbor_encode ?v = Inr (cbor_encode ?v)"
    using defined by (rule encodeCbor_ok)
  moreover have "\<not> js_equal (JObj [(''confidence'', JFloat 0)]) ?v"
    by (simp add: js_equal_def)
  ultimately show ?thesis
    using valid defined by (simp only: decodeCbor_def) simp
qed

subsection \<open>Ticket identity\<close>

lemma distinct_ticket_keys: "distinct (map fst (ticket_entries t))"
  by (simp add: ticket_entries_def)

lemma lower_is_hex_digit: "c \<in> set ''0123456789abcdef'' \<Longrightarrow> is_hex_digit c"
  by (auto simp add: is_hex_digit_def)

lemma lower_not_x: "c \<in> set ''0123456789abcdef'' \<Longrightarrow> c \<noteq> CHR ''x'' \<and> c \<noteq> CHR ''X''"
  by auto

lemma bytesToHex_Cons:
  "bytesToHex (b # bs) = hex_char (unat b div 16) # hex_char (unat b mod 16) # bytesToHex bs"
  by (simp add: bytesToHex_def byte_hex_def)

lemma bytesToHex_no_prefix:
  "take 2 (bytesToHex bs) \<noteq> ''0x'' \<and> take 2 (bytesToHex bs) \<noteq> ''0X''"
proof (cases bs)
  case Nil
  then show ?thesis by (simp add: bytesToHex_def)
next
  case (Cons b rest)
  have "hex_char (unat b mod 16) \<noteq> CHR ''x'' \<and> hex_char (unat b mod 16) \<noteq> CHR ''X''"
    using hex_char_lower by (rule lower_not_x)
  then show ?thesis
    by (simp add: Cons bytesToHex_Cons)
qed

lemma hexToBytes_bytesToHex: "bs \<noteq> [] \<Longrightarrow> hexToBytes (bytesToHex bs) = Inr bs"
proof -
  assume "bs \<noteq> []"
  then have "length (bytesToHex bs) \<noteq> 0"
    by (simp add: length_bytesToHex)
  moreover have "length (bytesToHex bs) mod 2 = 0"
    by (simp add: length_bytesToHex)
  moreover have "list_all is_hex_digit (bytesToHex bs)"
    unfolding list_all_iff using bytesToHex_lower lower_is_hex_digit by blast
  ultimately show ?thesis
    using bytesToHex_no_prefix [of bs]
    by (simp add: hexToBytes_def parse_hex_pairs_bytesToHex)
qed

lemma demo_digest: "demo_sha256 (demo_encode (ticket_value demo_ticket)) = [1]"
  by (simp add: demo_sha256_def demo_encode_def ticket_value_def ticket_entries_def demo_ticket_def)

text \<open>
  Claim C8. The identity of a ticket is \<open>''ticket:v1:''\<close> followed by the hexadecimal
  rendering \<open>h\<close> of the hash of its encoding, whatever the encoder and the hash: \<open>h\<close> has
  two characters for each byte of the digest (64 for the 32 bytes of SHA-256), all of
  them lowercase hexadecimal digits, and read back in pairs it is the digest, which is
  also what \<open>hexToBytes\<close> returns on it. \<open>verifyTicketId\<close> returns whether the given string
  is that identity. With the byte format modelled above, the object of a ticket with
  its entries in any other order has the same identity.
\<close>

theorem ticket_identity:
  "\<exists>h. getTicketId enc sha (ticket_value t) = Inr (''ticket:v1:'' @ h) \<and>
        length h = 2 * length (sha (enc (ticket_value t))) \<and>
        (\<forall>c \<in> set h. c \<in> set ''0123456789abcdef'') \<and>
        parse_hex_pairs h = sha (enc (ticket_value t)) \<and>
        (sha (enc (ticket_value t)) \<noteq> [] \<longrightarrow> hexToBytes h = Inr (sha (enc (ticket_value t)))) \<and>
        (\<forall>ident. verifyTicketId enc sha (ticket_value t) ident = Inr (ident = ''ticket:v1:'' @ h)) \<and>
        (\<forall>kvs. mset kvs = mset (ticket_entries t) \<longrightarrow>
           getTicketId cbor_encode sha (JObj kvs) = getTicketId cbor_encode sha (ticket_value t))"
proof -
  let ?d = "sha (enc (ticket_value t))"
  let ?h = "bytesToHex ?d"
  have perm: "getTicketId cbor_encode sha (JObj kvs) = getTicketId cbor_encode sha (ticket_value t)"
    if "mset kvs = mset (ticket_entries t)" for kvs
  proof -
    have "\<not> has_undefined (JObj kvs)"
      using has_undefined_permuted [OF that] ticket_value_defined [of t]
      by (simp add: ticket_value_def)
    moreover have "cbor_encode (JObj kvs) = cbor_encode (ticket_value t)"
      using cbor_encode_permuted [OF that [symmetric] distinct_ticket_keys]
      by (simp only: ticket_value_def)
    ultimately show ?thesis
      by (simp add: getTicketId_def encodeCbor_ok ticket_value_defined)
  qed
  have ident: "getTicketId enc sha (ticket_value t) = Inr (''ticket:v1:'' @ ?h)"
    by (simp only: getTicketId_ticket ticket_id_def)
  have len: "length ?h = 2 * length ?d"
    by (rule length_bytesToHex)
  have lower: "\<forall>c \<in> set ?h. c \<in> set ''0123456789abcdef''"
    using bytesToHex_lower by blast
  have parse: "parse_hex_pairs ?h = ?d"
    by (rule parse_hex_pairs_bytesToHex)
  have decoded: "?d \<noteq> [] \<longrightarrow> hexToBytes ?h = Inr ?d"
    using hexToBytes_bytesToHex by blast
  have ver: "\<forall>i. verifyTicketId enc sha (ticket_value t) i = Inr (i = ''ticket:v1:'' @ ?h)"
    by (auto simp add: verifyTicketId_def getTicketId_ticket ticket_id_def)
  show ?thesis
    using ident len lower parse decoded ver perm by blast
qed

theorem ticket_identity_witness:
  "\<exists>h. getTicketId demo_encode demo_sha256 (ticket_value demo_ticket) = Inr (''ticket:v1:'' @ h) \<and>
        length h = 2 \<and> parse_hex_pairs h = [1] \<and> hexToBytes h = Inr [1] \<and>
        verifyTicketId demo_encode demo_sha256 (ticket_value demo_ticket) (''ticket:v1:'' @ h) = Inr True \<and>
        getTicketId cbor_encode demo_sha256 (JObj (rev (ticket_entries demo_ticket)))
          = getTicketId cbor_encode demo_sha256 (ticket_value demo_ticket)"
proof -
  obtain h where h: "getTicketId demo_encode demo_sha256 (ticket_value demo_ticket) = Inr (''ticket:v1:'' @ h)"
      "length h = 2 * length (demo_sha256 (demo_encode (ticket_value demo_ticket)))"
      "parse_hex_pairs h = demo_sha256 (demo_encode (ticket_value demo_ticket))"
      "demo_sha256 (demo_encode (ticket_value demo_ticket)) \<noteq> [] \<longrightarrow>
         hexToBytes h = Inr (demo_sha256 (demo_encode (ticket_value demo_ticket)))"
      "\<forall>ident. verifyTicketId demo_encode demo_sha256 (ticket_value demo_ticket) ident
         = Inr (ident = ''ticket:v1:'' @ h)"
    using ticket_identity [of demo_encode demo_sha256 demo_ticket] by blast
  have all_orders: "\<forall>kvs. mset kvs = mset (ticket_entries demo_ticket) \<longrightarrow>
      getTicketId cbor_encode demo_sha256 (JObj kvs)
        = getTicketId cbor_encode demo_sha256 (ticket_value demo_ticket)"
    using ticket_identity [of cbor_encode demo_sha256 demo_ticket] by blast
  have "mset (rev (ticket_entries demo_ticket)) = mset (ticket_entries demo_ticket)"
    by simp
  then have perm: "getTicketId cbor_encode demo_sha256 (JObj (rev (ticket_entries demo_ticket)))
          = getTicketId cbor_encode demo_sha256 (ticket_value demo_ticket)"
    using all_orders by blast
  have "length h = 2"
    using h(2) by (simp only: demo_digest) simp
  moreover have "parse_hex_pairs h = [1]"
    using h(3) by (simp only: demo_digest)
  moreover have "hexToBytes h = Inr [1]"
    using h(4) by (simp only: demo_digest) simp
  moreover have "verifyTicketId demo_encode demo_sha256 (ticket_value demo_ticket) (''ticket:v1:'' @ h)
      = Inr True"
    using h(5) by simp
  ultimately show ?thesis
    using h(1) perm by blast
qed

end
